theory Spec2Isabelle
  imports Main "HOL-Library.Word" "HOL-Library.Multiset"
begin

unbundle bit_operations_syntax

section \<open>Data model of csvcryptography.py\<close>

text \<open>
  The program is Python 2: a \<^verbatim>\<open>str\<close> is a byte string. The password, the fields
  of a CSV row and the contents of a file are byte strings; paths and the value of the
  \<^verbatim>\<open>-c\<close> option are kept as character strings.
\<close>

type_synonym byte = "8 word"
type_synonym bytes = "byte list"
type_synonym path = string
type_synonym row = "bytes list"

text \<open>
  Two library functions are parameters of the model.
  \<^item> \<open>md5\<close> stands for \<^verbatim>\<open>hashlib.md5(password).digest()\<close>: a byte string goes to a
    digest of 128 bits.
  \<^item> \<open>ks\<close> stands for the key stream of \<^verbatim>\<open>pycryptopp.cipher.aes.AES\<close>, which is AES
    in counter mode with the counter started at zero: \<open>ks k i\<close> is byte number \<open>i\<close> of the
    key stream of key \<open>k\<close>.
\<close>

type_synonym digest = "128 word"
type_synonym keystream = "digest \<Rightarrow> nat \<Rightarrow> byte"

text \<open>
  The AES object: its key and how many bytes of the key stream it has used. The object
  is created at position zero and \<^verbatim>\<open>process\<close> is the only thing that moves it.
\<close>

record aes =
  aes_key :: digest
  aes_pos :: nat

text \<open>
  \<^verbatim>\<open>enigma.process(string)\<close>: the bytes of the string are combined by exclusive or
  with the next bytes of the key stream, and the object moves on by the length of the
  string. The object is returned with the output, since the source mutates it.
\<close>

definition process :: "keystream \<Rightarrow> aes \<Rightarrow> bytes \<Rightarrow> bytes \<times> aes" where
  "process ks e s =
     (map2 (XOR) s (map (ks (aes_key e)) [aes_pos e ..< aes_pos e + length s]),
      e\<lparr>aes_pos := aes_pos e + length s\<rparr>)"

text \<open>
  \<^verbatim>\<open>def crypto(string): return enigma.process(string)\<close>, with the global \<^verbatim>\<open>enigma\<close>
  passed in and out.
\<close>

definition crypto :: "keystream \<Rightarrow> aes \<Rightarrow> bytes \<Rightarrow> bytes \<times> aes" where
  "crypto ks enigma string = process ks enigma string"

text \<open>
  \<^verbatim>\<open>def crypto_init(password)\<close>: the MD5 digest of the password is the AES key. The
  source has no check on the password and raises nothing of its own.
\<close>

definition crypto_init :: "(bytes \<Rightarrow> digest) \<Rightarrow> bytes \<Rightarrow> aes" where
  "crypto_init md5 password = \<lparr>aes_key = md5 password, aes_pos = 0\<rparr>"

subsection \<open>Options and the column list\<close>

text \<open>
  The \<^verbatim>\<open>options\<close> object as the main program reads it after line 133:
  \<^verbatim>\<open>options.columns\<close> is \<^verbatim>\<open>None\<close> or a string, \<^verbatim>\<open>options.password\<close> is a byte
  string (given on the command line or read from the terminal). What a run of the
  program has in it is given by \<open>read_options\<close> below.
\<close>

record options =
  columns :: "string option"
  password :: bytes
  not_really :: bool
  verbose :: bool

text \<open>Python's truth value of \<^verbatim>\<open>options.columns\<close>: neither \<^verbatim>\<open>None\<close> nor empty.\<close>

definition columns_given :: "options \<Rightarrow> bool" where
  "columns_given opts = (case columns opts of None \<Rightarrow> False | Some v \<Rightarrow> v \<noteq> [])"

text \<open>\<^verbatim>\<open>value.split(',')\<close>.\<close>

fun split_comma :: "string \<Rightarrow> string list" where
  "split_comma [] = [[]]"
| "split_comma (c # cs) =
     (if c = CHR '','' then [] # split_comma cs
      else (case split_comma cs of
              [] \<Rightarrow> [[c]]
            | w # ws \<Rightarrow> (c # w) # ws))"

text \<open>\<^verbatim>\<open>column.isdigit()\<close> on a byte string: not empty, and every character a digit.\<close>

definition isdigit :: "string \<Rightarrow> bool" where
  "isdigit s = (s \<noteq> [] \<and> list_all (\<lambda>c. (48::nat) \<le> of_char c \<and> of_char c \<le> (57::nat)) s)"

text \<open>
  \<^verbatim>\<open>check_columns\<close>, the syntax check the option parser calls on the value of
  \<^verbatim>\<open>-c\<close>: \<open>False\<close> is the \<^verbatim>\<open>sys.exit('Syntax error: Bad column number')\<close>.
\<close>

definition check_columns :: "string \<Rightarrow> bool" where
  "check_columns v = list_all isdigit (split_comma v)"

text \<open>\<^verbatim>\<open>int(col_number)\<close> on a string of digits: its decimal value.\<close>

definition int_of_digits :: "string \<Rightarrow> nat" where
  "int_of_digits s = foldl (\<lambda>n c. 10 * n + (of_char c - 48)) 0 s"

text \<open>
  Lines 134 to 137: \<^verbatim>\<open>target_columns\<close> is empty unless \<^verbatim>\<open>options.columns\<close> is
  true, and then holds the numbers in the order and with the repeats of the option's
  value.
\<close>

definition target_columns :: "options \<Rightarrow> nat list" where
  "target_columns opts =
     (case columns opts of
        None \<Rightarrow> []
      | Some v \<Rightarrow> if v = [] then [] else map int_of_digits (split_comma v))"

subsection \<open>Transforming a row\<close>

datatype error = IndexError | IOError

text \<open>
  \<^verbatim>\<open>map(crypto, line)\<close>: every field in row order, each one continuing the key stream
  where the field before it stopped.
\<close>

fun map_crypto :: "keystream \<Rightarrow> aes \<Rightarrow> row \<Rightarrow> row \<times> aes" where
  "map_crypto ks enigma [] = ([], enigma)"
| "map_crypto ks enigma (field # rest) =
     (let (out, enigma1) = crypto ks enigma field;
          (outs, enigma2) = map_crypto ks enigma1 rest
      in (out # outs, enigma2))"

text \<open>
  The loop \<^verbatim>\<open>for column in ...: newline[column] = crypto(line[column])\<close>. The field is
  read from \<^verbatim>\<open>line\<close> and written to \<^verbatim>\<open>newline\<close>; \<^verbatim>\<open>line[column]\<close> raises
  \<^verbatim>\<open>IndexError\<close> when the row has no such field. Column numbers are not negative:
  they are made of digits.
\<close>

fun columns_loop :: "keystream \<Rightarrow> row \<Rightarrow> nat list \<Rightarrow> row \<times> aes \<Rightarrow> error + row \<times> aes" where
  "columns_loop ks line [] (newline, enigma) = Inr (newline, enigma)"
| "columns_loop ks line (column # rest) (newline, enigma) =
     (if column < length line
      then (let (out, enigma1) = crypto ks enigma (line ! column)
            in columns_loop ks line rest (newline[column := out], enigma1))
      else Inl IndexError)"

text \<open>
  The body of \<^verbatim>\<open>for line in csv.reader(csvfile)\<close>, lines 181 to 186:
  without \<^verbatim>\<open>options.columns\<close> every field is transformed, with it the fields of
  \<^verbatim>\<open>sorted(target_columns)\<close> are transformed in a copy of the row.
\<close>

definition transform_line ::
  "keystream \<Rightarrow> options \<Rightarrow> nat list \<Rightarrow> aes \<Rightarrow> row \<Rightarrow> error + row \<times> aes" where
  "transform_line ks opts tcols enigma line =
     (if \<not> columns_given opts then Inr (map_crypto ks enigma line)
      else columns_loop ks line (sort tcols) (line, enigma))"

text \<open>The rows of one file in order, collected in \<^verbatim>\<open>csv_contents\<close>.\<close>

fun transform_lines ::
  "keystream \<Rightarrow> options \<Rightarrow> nat list \<Rightarrow> aes \<Rightarrow> row list \<Rightarrow> error + row list \<times> aes" where
  "transform_lines ks opts tcols enigma [] = Inr ([], enigma)"
| "transform_lines ks opts tcols enigma (line # rest) =
     (case transform_line ks opts tcols enigma line of
        Inl e \<Rightarrow> Inl e
      | Inr (newline, enigma1) \<Rightarrow>
          (case transform_lines ks opts tcols enigma1 rest of
             Inl e \<Rightarrow> Inl e
           | Inr (csv_contents, enigma2) \<Rightarrow> Inr (newline # csv_contents, enigma2)))"

subsection \<open>Files, the crawler and the main loop\<close>

text \<open>
  What the program does to the outside world, in the order it does it: the lines it
  prints and the files it opens.
\<close>

datatype event =
    Print_processing path
  | Open_rb path
  | Print_not_csv path
  | Print_rows "row list"
  | Open_wb path
  | Print_nothing_done
  | Print_altered nat

text \<open>
  The state of a run: the contents of the files that can be opened (no entry: \<^verbatim>\<open>open\<close>
  raises \<^verbatim>\<open>IOError\<close>, as for a dangling link), the counter \<^verbatim>\<open>processed_files\<close> and
  the events so far, oldest first. The contents are kept by path, so a write through
  one path leaves the contents under every other path as they are: the model follows the
  contents in the runs in which no two targets are links to one file.
\<close>

record state =
  files :: "path \<Rightarrow> bytes option"
  processed_files :: nat
  trace :: "event list"

definition emit :: "event \<Rightarrow> state \<Rightarrow> state" where
  "emit ev st = st\<lparr>trace := trace st @ [ev]\<rparr>"

text \<open>
  The body of \<^verbatim>\<open>for target in crawler(paths)\<close>, lines 174 to 206, for one target.
  The CSV module is a parameter: \<open>rd\<close> gives the rows \<^verbatim>\<open>csv.reader\<close> yields for the
  contents of a file, and whether it raises \<^verbatim>\<open>csv.Error\<close> after the last of them;
  \<open>wr\<close> gives what \<^verbatim>\<open>csv.writer\<close> writes for a list of rows. The reader is lazy, so
  the rows before a malformed one are transformed before \<^verbatim>\<open>csv.Error\<close> is raised, and
  an \<^verbatim>\<open>IndexError\<close> in one of them comes first. Only \<^verbatim>\<open>csv.Error\<close> is caught: any
  other exception ends the program, which is the result \<open>Some e\<close>. A file that could be
  opened for reading is taken to open for writing as well.
\<close>

definition process_target ::
  "keystream \<Rightarrow> (bytes \<Rightarrow> digest) \<Rightarrow> (bytes \<Rightarrow> row list \<times> bool) \<Rightarrow> (row list \<Rightarrow> bytes) \<Rightarrow>
   options \<Rightarrow> nat list \<Rightarrow> state \<Rightarrow> path \<Rightarrow> error option \<times> state" where
  "process_target ks md5 rd wr opts tcols st target =
     (let enigma = crypto_init md5 (password opts);
          st1 = (if verbose opts \<or> not_really opts then emit (Print_processing target) st else st)
      in case files st1 target of
           None \<Rightarrow> (Some IOError, st1)
         | Some contents \<Rightarrow>
             (let st2 = emit (Open_rb target) st1
              in case transform_lines ks opts tcols enigma (fst (rd contents)) of
                   Inl e \<Rightarrow> (Some e, st2)
                 | Inr (csv_contents, enigma1) \<Rightarrow>
                     if snd (rd contents) then (None, emit (Print_not_csv target) st2)
                     else if not_really opts then (None, emit (Print_rows csv_contents) st2)
                     else (None, (emit (Open_wb target) st2)
                                   \<lparr>files := (files st2)(target \<mapsto> wr csv_contents),
                                    processed_files := processed_files st2 + 1\<rparr>)))"

text \<open>The loop over the targets: an exception that is not caught ends it.\<close>

fun main_loop ::
  "keystream \<Rightarrow> (bytes \<Rightarrow> digest) \<Rightarrow> (bytes \<Rightarrow> row list \<times> bool) \<Rightarrow> (row list \<Rightarrow> bytes) \<Rightarrow>
   options \<Rightarrow> nat list \<Rightarrow> state \<Rightarrow> path list \<Rightarrow> error option \<times> state" where
  "main_loop ks md5 rd wr opts tcols st [] = (None, st)"
| "main_loop ks md5 rd wr opts tcols st (target # rest) =
     (case process_target ks md5 rd wr opts tcols st target of
        (Some e, st1) \<Rightarrow> (Some e, st1)
      | (None, st1) \<Rightarrow> main_loop ks md5 rd wr opts tcols st1 rest)"

text \<open>
  \<^verbatim>\<open>def crawler(paths)\<close>. The directory structure is a parameter: \<open>isdir\<close> is
  \<^verbatim>\<open>os.path.isdir\<close> and \<open>listdir\<close> is \<^verbatim>\<open>os.listdir\<close>. The source does not look for
  cycles, so the recursion need not end: \<open>None\<close> is a call that does not return.
\<close>

partial_function (option) crawler ::
  "(path \<Rightarrow> bool) \<Rightarrow> (path \<Rightarrow> string list) \<Rightarrow> path list \<Rightarrow> path list option" where
  "crawler isdir listdir paths =
     (case paths of
        [] \<Rightarrow> Some []
      | path # rest \<Rightarrow>
          if isdir path
          then Option.bind (crawler isdir listdir (map (\<lambda>p. path @ ''/'' @ p) (listdir path)))
                 (\<lambda>subfiles. Option.bind (crawler isdir listdir rest)
                    (\<lambda>unrolled. Some (subfiles @ unrolled)))
          else Option.bind (crawler isdir listdir rest)
                 (\<lambda>unrolled. Some (path # unrolled)))"

text \<open>
  The main logic, lines 172 to 212: the targets are crawled first, then processed in
  order; the summary is printed when the loop has reached its end. The checks the program
  makes before it are in \<open>main_program\<close> below.
\<close>

definition run ::
  "keystream \<Rightarrow> (bytes \<Rightarrow> digest) \<Rightarrow> (bytes \<Rightarrow> row list \<times> bool) \<Rightarrow> (row list \<Rightarrow> bytes) \<Rightarrow>
   (path \<Rightarrow> bool) \<Rightarrow> (path \<Rightarrow> string list) \<Rightarrow>
   options \<Rightarrow> path list \<Rightarrow> state \<Rightarrow> (error option \<times> state) option" where
  "run ks md5 rd wr isdir listdir opts paths st =
     (case crawler isdir listdir paths of
        None \<Rightarrow> None
      | Some targets \<Rightarrow>
          Some (case main_loop ks md5 rd wr opts (target_columns opts) st targets of
                  (Some e, st1) \<Rightarrow> (Some e, st1)
                | (None, st1) \<Rightarrow>
                    (None, emit (if processed_files st1 = 0 then Print_nothing_done
                                 else Print_altered (processed_files st1)) st1)))"

subsection \<open>The command line\<close>

text \<open>
  What the user gives: the options and paths of the command line, and the line typed
  when the program asks for the password.
\<close>

record invocation =
  arg_long_help :: bool
  arg_columns :: "string option"
  arg_password :: "bytes option"
  arg_not_really :: bool
  arg_verbose :: bool
  arg_paths :: "path list"
  typed_password :: bytes

datatype early_exit = Bad_column_number | Long_help | No_paths | Missing_target

text \<open>
  Lines 88 to 133, from \<^verbatim>\<open>parser.parse_args()\<close> to the password and verbosity: either the
  program exits before it touches a file, or the options are set.

  The option \<^verbatim>\<open>-c\<close> is declared with \<^verbatim>\<open>action='callback'\<close> and the callback
  \<^verbatim>\<open>check_columns\<close>. For such an option the option parser calls the callback with the
  value and stores nothing; \<^verbatim>\<open>check_columns\<close> checks the value and stores nothing
  either. So \<^verbatim>\<open>options.columns\<close> keeps its default \<^verbatim>\<open>None\<close> whatever is given with
  \<^verbatim>\<open>-c\<close>. \<open>ex\<close> is \<^verbatim>\<open>os.path.exists\<close>.
\<close>

definition read_options :: "(path \<Rightarrow> bool) \<Rightarrow> invocation \<Rightarrow> early_exit + options" where
  "read_options ex cl =
     (if (case arg_columns cl of None \<Rightarrow> False | Some v \<Rightarrow> \<not> check_columns v)
      then Inl Bad_column_number
      else if arg_long_help cl then Inl Long_help
      else if arg_paths cl = [] then Inl No_paths
      else if \<not> list_all ex (arg_paths cl) then Inl Missing_target
      else Inr \<lparr>columns = None,
                password = (case arg_password cl of
                              None \<Rightarrow> typed_password cl
                            | Some p \<Rightarrow> if p = [] then typed_password cl else p),
                not_really = arg_not_really cl,
                verbose = (arg_verbose cl \<or> arg_not_really cl)\<rparr>)"

text \<open>
  The whole program: the options are read, the paths are made absolute
  (\<open>abspath\<close> is \<^verbatim>\<open>os.path.abspath\<close>), and the main logic runs.
\<close>

definition main_program ::
  "keystream \<Rightarrow> (bytes \<Rightarrow> digest) \<Rightarrow> (bytes \<Rightarrow> row list \<times> bool) \<Rightarrow> (row list \<Rightarrow> bytes) \<Rightarrow>
   (path \<Rightarrow> bool) \<Rightarrow> (path \<Rightarrow> path) \<Rightarrow> (path \<Rightarrow> bool) \<Rightarrow> (path \<Rightarrow> string list) \<Rightarrow>
   invocation \<Rightarrow> state \<Rightarrow> (early_exit + error option \<times> state) option" where
  "main_program ks md5 rd wr ex abspath isdir listdir cl st =
     (case read_options ex cl of
        Inl x \<Rightarrow> Some (Inl x)
      | Inr opts \<Rightarrow>
          map_option Inr
            (run ks md5 rd wr isdir listdir opts (map abspath (arg_paths cl)) st))"

subsection \<open>Notions the properties are stated with\<close>

text \<open>The files a run has opened for reading, and for writing, in order.\<close>

fun opened_rb :: "event list \<Rightarrow> path list" where
  "opened_rb [] = []"
| "opened_rb (Open_rb p # evs) = p # opened_rb evs"
| "opened_rb (_ # evs) = opened_rb evs"

fun opened_wb :: "event list \<Rightarrow> path list" where
  "opened_wb [] = []"
| "opened_wb (Open_wb p # evs) = p # opened_wb evs"
| "opened_wb (_ # evs) = opened_wb evs"

text \<open>
  \<open>below isdir listdir p q\<close>: the path \<open>q\<close> is \<open>p\<close> or lies under the directory \<open>p\<close>.
\<close>

inductive below :: "(path \<Rightarrow> bool) \<Rightarrow> (path \<Rightarrow> string list) \<Rightarrow> path \<Rightarrow> path \<Rightarrow> bool"
  for isdir :: "path \<Rightarrow> bool" and listdir :: "path \<Rightarrow> string list" where
  below_self: "below isdir listdir p p"
| below_child: "isdir p \<Longrightarrow> n \<in> set (listdir p) \<Longrightarrow> below isdir listdir (p @ ''/'' @ n) q
     \<Longrightarrow> below isdir listdir p q"

text \<open>
  \<open>finite_tree isdir listdir p\<close>: what lies under \<open>p\<close> is a tree of finite depth, which
  is what a directory tree without cycles is.
\<close>

inductive finite_tree :: "(path \<Rightarrow> bool) \<Rightarrow> (path \<Rightarrow> string list) \<Rightarrow> path \<Rightarrow> bool"
  for isdir :: "path \<Rightarrow> bool" and listdir :: "path \<Rightarrow> string list" where
  tree_file: "\<not> isdir p \<Longrightarrow> finite_tree isdir listdir p"
| tree_dir: "isdir p \<Longrightarrow> (\<forall>n\<in>set (listdir p). finite_tree isdir listdir (p @ ''/'' @ n))
     \<Longrightarrow> finite_tree isdir listdir p"

text \<open>
  What the operating system gives for the names in a directory: no name twice, and no
  name with a slash in it.
\<close>

definition names_ok :: "(path \<Rightarrow> bool) \<Rightarrow> (path \<Rightarrow> string list) \<Rightarrow> bool" where
  "names_ok isdir listdir =
     (\<forall>d. isdir d \<longrightarrow> distinct (listdir d) \<and> (\<forall>n\<in>set (listdir d). CHR ''/'' \<notin> set n))"

section \<open>The key stream\<close>

lemma xor_twice: "length k = length s \<Longrightarrow> map2 (XOR) (map2 (XOR) s k) k = (s::bytes)"
  by (rule nth_equalityI) (simp_all add: xor.assoc)

lemma process_pos: "snd (process ks e s) = e\<lparr>aes_pos := aes_pos e + length s\<rparr>"
  by (simp add: process_def)

lemma upt_split: "[p ..< p + (m + n)] = [p ..< p + m] @ [p + m ..< p + m + (n::nat)]"
  by (metis add.assoc le_add1 upt_add_eq_append)

lemma process_append:
  "process ks e (a @ b) =
     (fst (process ks e a) @ fst (process ks (snd (process ks e a)) b),
      snd (process ks (snd (process ks e a)) b))"
  by (simp add: process_def upt_split add.assoc)

lemma process_twice:
  "fst (process ks e (fst (process ks e s))) = s"
  by (simp add: process_def xor_twice)

lemma map_crypto_lengths:
  "map length (fst (map_crypto ks e line)) = map length line"
  by (induction line arbitrary: e) (simp_all add: crypto_def process_def case_prod_beta)

lemma map_crypto_pos:
  "snd (map_crypto ks e line) = e\<lparr>aes_pos := aes_pos e + sum_list (map length line)\<rparr>"
  by (induction line arbitrary: e) (simp_all add: crypto_def process_def case_prod_beta add.assoc)

lemma map_crypto_twice:
  "fst (map_crypto ks e (fst (map_crypto ks e line))) = line"
  by (induction line arbitrary: e) (simp_all add: crypto_def process_def xor_twice case_prod_beta)

lemma map_crypto_concat:
  "concat (fst (map_crypto ks e line)) = fst (process ks e (concat line))"
proof (induction line arbitrary: e)
  case Nil
  show ?case by (simp add: process_def)
next
  case (Cons f rest)
  show ?case
    by (simp add: crypto_def case_prod_beta Cons.IH process_append)
qed

section \<open>The column loop\<close>

lemma columns_loop_frame:
  assumes "\<forall>c\<in>set cs. c < length line"
  shows "\<exists>nl' e'. columns_loop ks line cs (nl, e) = Inr (nl', e')
           \<and> length nl' = length nl
           \<and> e' = e\<lparr>aes_pos := aes_pos e + sum_list (map (\<lambda>c. length (line ! c)) cs)\<rparr>
           \<and> (\<forall>i. i \<notin> set cs \<longrightarrow> nl' ! i = nl ! i)"
  using assms
proof (induction cs arbitrary: nl e)
  case Nil
  show ?case by simp
next
  case (Cons c cs)
  let ?out = "fst (crypto ks e (line ! c))"
  let ?e1 = "snd (crypto ks e (line ! c))"
  from Cons.prems have inr: "\<forall>c\<in>set cs. c < length line" and c: "c < length line"
    by simp_all
  from Cons.IH [OF inr, of "nl[c := ?out]" ?e1]
  obtain nl' e' where
    loop: "columns_loop ks line cs (nl[c := ?out], ?e1) = Inr (nl', e')"
    and len: "length nl' = length nl"
    and e': "e' = ?e1\<lparr>aes_pos := aes_pos ?e1 + sum_list (map (\<lambda>c. length (line ! c)) cs)\<rparr>"
    and frame: "\<forall>i. i \<notin> set cs \<longrightarrow> nl' ! i = nl[c := ?out] ! i"
    by auto
  have "columns_loop ks line (c # cs) (nl, e) = Inr (nl', e')"
    using c loop by (simp add: case_prod_beta)
  moreover have "e' = e\<lparr>aes_pos := aes_pos e + sum_list (map (\<lambda>c. length (line ! c)) (c # cs))\<rparr>"
    using e' by (simp add: crypto_def process_def add.assoc)
  moreover have "\<forall>i. i \<notin> set (c # cs) \<longrightarrow> nl' ! i = nl ! i"
    using frame by simp
  ultimately show ?case using len by blast
qed

text \<open>Two rows with the same field lengths meet the same key stream.\<close>

lemma columns_loop_pair:
  assumes "length line' = length line"
    and "\<forall>i<length line. length (line' ! i) = length (line ! i)"
    and "\<forall>c\<in>set cs. c < length line"
    and "length nl = length line" and "length nl' = length line"
    and "columns_loop ks line cs (nl, e) = Inr (n1, e1)"
    and "columns_loop ks line' cs (nl', e) = Inr (n2, e2)"
  shows "e1 = e2 \<and> (\<forall>i\<in>set cs. \<exists>k. length k = length (line ! i)
            \<and> n1 ! i = map2 (XOR) (line ! i) k \<and> n2 ! i = map2 (XOR) (line' ! i) k)"
  using assms
proof (induction cs arbitrary: nl nl' e)
  case Nil
  then show ?case by simp
next
  case (Cons c cs)
  let ?k = "map (ks (aes_key e)) [aes_pos e ..< aes_pos e + length (line ! c)]"
  let ?o1 = "map2 (XOR) (line ! c) ?k"
  let ?o2 = "map2 (XOR) (line' ! c) ?k"
  let ?e = "e\<lparr>aes_pos := aes_pos e + length (line ! c)\<rparr>"
  from Cons.prems have c: "c < length line" and inr: "\<forall>c\<in>set cs. c < length line"
    by simp_all
  from Cons.prems(2) c have lc: "length (line' ! c) = length (line ! c)" by simp
  have s1: "columns_loop ks line cs (nl[c := ?o1], ?e) = Inr (n1, e1)"
    using Cons.prems(6) c by (simp add: crypto_def process_def)
  have s2: "columns_loop ks line' cs (nl'[c := ?o2], ?e) = Inr (n2, e2)"
    using Cons.prems(7) c Cons.prems(1) lc by (simp add: crypto_def process_def)
  have ih: "e1 = e2 \<and> (\<forall>i\<in>set cs. \<exists>k. length k = length (line ! i)
            \<and> n1 ! i = map2 (XOR) (line ! i) k \<and> n2 ! i = map2 (XOR) (line' ! i) k)"
    by (rule Cons.IH [OF Cons.prems(1) Cons.prems(2) inr _ _ s1 s2])
       (simp_all add: Cons.prems)
  have "\<exists>k. length k = length (line ! c)
            \<and> n1 ! c = map2 (XOR) (line ! c) k \<and> n2 ! c = map2 (XOR) (line' ! c) k"
  proof (cases "c \<in> set cs")
    case True
    with ih show ?thesis by blast
  next
    case False
    from columns_loop_frame [OF inr, of ks "nl[c := ?o1]" ?e] s1 False
    have "n1 ! c = nl[c := ?o1] ! c" by auto
    moreover from Cons.prems(1) inr have "\<forall>c\<in>set cs. c < length line'" by simp
    from columns_loop_frame [OF this, of ks "nl'[c := ?o2]" ?e] s2 False
    have "n2 ! c = nl'[c := ?o2] ! c" by auto
    ultimately have "n1 ! c = ?o1 \<and> n2 ! c = ?o2"
      using c Cons.prems(4,5) by simp
    then show ?thesis by (intro exI [of _ ?k]) simp
  qed
  with ih show ?case by simp
qed

lemma columns_loop_twice:
  assumes inr: "\<forall>c\<in>set cs. c < length line"
    and run: "columns_loop ks line cs (line, e) = Inr (n1, e1)"
  shows "columns_loop ks n1 cs (n1, e) = Inr (line, e1)
         \<and> map length n1 = map length line"
proof -
  from columns_loop_frame [OF inr, of ks line e] run
  have len1: "length n1 = length line"
    and frame1: "\<forall>i. i \<notin> set cs \<longrightarrow> n1 ! i = line ! i"
    by auto
  from columns_loop_pair [OF refl _ inr refl refl run run]
  have sel1: "\<forall>i\<in>set cs. \<exists>k. length k = length (line ! i) \<and> n1 ! i = map2 (XOR) (line ! i) k"
    by blast
  have lens: "\<forall>i<length line. length (n1 ! i) = length (line ! i)"
  proof (intro allI impI)
    fix i assume "i < length line"
    show "length (n1 ! i) = length (line ! i)"
    proof (cases "i \<in> set cs")
      case True
      with sel1 obtain k where "length k = length (line ! i)" "n1 ! i = map2 (XOR) (line ! i) k"
        by blast
      then show ?thesis by simp
    next
      case False
      with frame1 show ?thesis by simp
    qed
  qed
  from inr len1 have inr1: "\<forall>c\<in>set cs. c < length n1" by simp
  from columns_loop_frame [OF inr1, of ks n1 e]
  obtain n2 e2 where run2: "columns_loop ks n1 cs (n1, e) = Inr (n2, e2)"
    and len2: "length n2 = length n1"
    and frame2: "\<forall>i. i \<notin> set cs \<longrightarrow> n2 ! i = n1 ! i"
    by blast
  from columns_loop_pair [OF len1 lens inr refl len1 run run2]
  have e12: "e1 = e2"
    and sel: "\<forall>i\<in>set cs. \<exists>k. length k = length (line ! i)
            \<and> n1 ! i = map2 (XOR) (line ! i) k \<and> n2 ! i = map2 (XOR) (n1 ! i) k"
    by blast+
  have "n2 = line"
  proof (rule nth_equalityI)
    show "length n2 = length line" using len2 len1 by simp
  next
    fix i assume "i < length n2"
    show "n2 ! i = line ! i"
    proof (cases "i \<in> set cs")
      case True
      with sel obtain k where "length k = length (line ! i)"
        "n1 ! i = map2 (XOR) (line ! i) k" "n2 ! i = map2 (XOR) (n1 ! i) k"
        by blast
      then show ?thesis by (simp add: xor_twice)
    next
      case False
      with frame1 frame2 show ?thesis by simp
    qed
  qed
  moreover have "map length n1 = map length line"
    by (rule nth_equalityI) (simp_all add: len1 lens)
  ultimately show ?thesis using run2 e12 by simp
qed

lemma columns_loop_in_range:
  "columns_loop ks line cs st = Inr r \<Longrightarrow> \<forall>c\<in>set cs. c < length line"
proof (induction cs arbitrary: st)
  case Nil
  show ?case by simp
next
  case (Cons c cs)
  obtain nl e where st: "st = (nl, e)" by (cases st)
  from Cons.prems st have c: "c < length line"
    by (simp split: if_splits)
  with Cons.prems st have
    "columns_loop ks line cs (nl[c := fst (crypto ks e (line ! c))], snd (crypto ks e (line ! c))) = Inr r"
    by (simp add: case_prod_beta)
  from Cons.IH [OF this] c show ?case by simp
qed

lemma transform_line_twice:
  assumes "columns_given opts \<Longrightarrow> \<forall>c\<in>set tcols. c < length line"
  shows "\<exists>nl e1. transform_line ks opts tcols e line = Inr (nl, e1)
           \<and> transform_line ks opts tcols e nl = Inr (line, e1)
           \<and> map length nl = map length line"
proof (cases "columns_given opts")
  case False
  have "snd (map_crypto ks e (fst (map_crypto ks e line))) = snd (map_crypto ks e line)"
    by (simp add: map_crypto_pos map_crypto_lengths)
  then have "map_crypto ks e (fst (map_crypto ks e line)) = (line, snd (map_crypto ks e line))"
    by (simp add: prod_eq_iff map_crypto_twice)
  with False show ?thesis
    by (simp add: transform_line_def map_crypto_lengths prod_eq_iff)
next
  case True
  with assms have inr: "\<forall>c\<in>set (sort tcols). c < length line" by simp
  from columns_loop_frame [OF inr, of ks line e]
  obtain nl e1 where run: "columns_loop ks line (sort tcols) (line, e) = Inr (nl, e1)"
    by blast
  from columns_loop_twice [OF inr run] run True show ?thesis
    by (simp add: transform_line_def)
qed

lemma transform_lines_twice:
  assumes "columns_given opts \<Longrightarrow> \<forall>line\<in>set rows. \<forall>c\<in>set tcols. c < length line"
  shows "\<exists>rows' e1. transform_lines ks opts tcols e rows = Inr (rows', e1)
           \<and> transform_lines ks opts tcols e rows' = Inr (rows, e1)
           \<and> map (map length) rows' = map (map length) rows"
  using assms
proof (induction rows arbitrary: e)
  case Nil
  show ?case by simp
next
  case (Cons line rest)
  from Cons.prems have "columns_given opts \<Longrightarrow> \<forall>c\<in>set tcols. c < length line"
    by simp
  from transform_line_twice [OF this, where ks=ks and e=e]
  obtain nl e1 where a: "transform_line ks opts tcols e line = Inr (nl, e1)"
    and b: "transform_line ks opts tcols e nl = Inr (line, e1)"
    and c: "map length nl = map length line"
    by blast
  from Cons.prems have "columns_given opts \<Longrightarrow> \<forall>line\<in>set rest. \<forall>c\<in>set tcols. c < length line"
    by simp
  from Cons.IH [OF this, where e=e1]
  obtain rows' e2 where a': "transform_lines ks opts tcols e1 rest = Inr (rows', e2)"
    and b': "transform_lines ks opts tcols e1 rows' = Inr (rest, e2)"
    and c': "map (map length) rows' = map (map length) rest"
    by blast
  show ?case
    by (intro exI [of _ "nl # rows'"] exI [of _ e2]) (simp add: a b c a' b' c')
qed

lemma transform_line_lengths:
  assumes "transform_line ks opts tcols e line = Inr (nl, e1)"
  shows "map length nl = map length line"
proof (cases "columns_given opts")
  case False
  with assms have "nl = fst (map_crypto ks e line)"
    by (simp add: transform_line_def)
  then show ?thesis by (simp add: map_crypto_lengths)
next
  case True
  with assms have run: "columns_loop ks line (sort tcols) (line, e) = Inr (nl, e1)"
    by (simp add: transform_line_def)
  from columns_loop_in_range [OF run] have "\<forall>c\<in>set (sort tcols). c < length line" .
  from columns_loop_twice [OF this run] show ?thesis by simp
qed

lemma transform_lines_lengths:
  "transform_lines ks opts tcols e rows = Inr (rows', e1)
     \<Longrightarrow> map (map length) rows' = map (map length) rows"
proof (induction rows arbitrary: e rows')
  case Nil
  then show ?case by simp
next
  case (Cons line rest)
  from Cons.prems obtain nl e2 rest' where
    a: "transform_line ks opts tcols e line = Inr (nl, e2)"
    and b: "transform_lines ks opts tcols e2 rest = Inr (rest', e1)"
    and c: "rows' = nl # rest'"
    by (auto split: sum.splits prod.splits)
  from transform_line_lengths [OF a] Cons.IH [OF b] c show ?case by simp
qed

section \<open>The crawler\<close>

lemma crawler_Nil: "crawler isdir listdir [] = Some []"
  by (subst crawler.simps) simp

lemma crawler_Cons:
  "crawler isdir listdir (p # ps) =
     (if isdir p
      then Option.bind (crawler isdir listdir (map (\<lambda>n. p @ ''/'' @ n) (listdir p)))
             (\<lambda>subfiles. Option.bind (crawler isdir listdir ps)
                (\<lambda>unrolled. Some (subfiles @ unrolled)))
      else Option.bind (crawler isdir listdir ps) (\<lambda>unrolled. Some (p # unrolled)))"
  by (subst crawler.simps) simp

lemma crawler_single:
  "crawler isdir listdir [p] =
     (if isdir p then crawler isdir listdir (map (\<lambda>n. p @ ''/'' @ n) (listdir p))
      else Some [p])"
  by (simp add: crawler_Cons crawler_Nil)

lemma crawler_Cons_single:
  "crawler isdir listdir (p # ps) =
     Option.bind (crawler isdir listdir [p])
       (\<lambda>a. Option.bind (crawler isdir listdir ps) (\<lambda>b. Some (a @ b)))"
  by (simp add: crawler_single crawler_Cons [of isdir listdir p ps])

lemma crawler_append:
  "crawler isdir listdir (ps @ qs) =
     Option.bind (crawler isdir listdir ps)
       (\<lambda>a. Option.bind (crawler isdir listdir qs) (\<lambda>b. Some (a @ b)))"
proof (induction ps)
  case Nil
  show ?case by (simp add: crawler_Nil)
next
  case (Cons p ps)
  show ?case
    apply (simp only: append_Cons)
    apply (subst crawler_Cons_single)
    apply (subst (2) crawler_Cons_single)
    apply (simp add: Cons.IH)
    done
qed

lemma slash_split:
  "c \<notin> set a \<Longrightarrow> c \<notin> set b \<Longrightarrow> a @ c # s = b @ c # t \<Longrightarrow> a = b"
proof (induction a arbitrary: b)
  case Nil
  then show ?case by (cases b) auto
next
  case (Cons x a)
  then show ?case by (cases b) auto
qed

lemma below_prefix:
  "below isdir listdir p q \<Longrightarrow> q = p \<or> (\<exists>s. q = p @ CHR ''/'' # s)"
  by (induction rule: below.induct) auto

lemma siblings_disjoint:
  assumes "n \<noteq> m" "CHR ''/'' \<notin> set n" "CHR ''/'' \<notin> set m"
    and "below isdir listdir (p @ ''/'' @ n) q" "below isdir listdir (p @ ''/'' @ m) q"
  shows False
proof -
  from below_prefix [OF assms(4)] have a: "q = p @ CHR ''/'' # n \<or> (\<exists>s. q = p @ CHR ''/'' # n @ CHR ''/'' # s)"
    by auto
  from below_prefix [OF assms(5)] have b: "q = p @ CHR ''/'' # m \<or> (\<exists>s. q = p @ CHR ''/'' # m @ CHR ''/'' # s)"
    by auto
  from a show False
  proof
    assume qa: "q = p @ CHR ''/'' # n"
    from b show False
    proof
      assume "q = p @ CHR ''/'' # m"
      with qa assms(1) show False by simp
    next
      assume "\<exists>s. q = p @ CHR ''/'' # m @ CHR ''/'' # s"
      then obtain s where "q = p @ CHR ''/'' # m @ CHR ''/'' # s" ..
      with qa have "n = m @ CHR ''/'' # s" by simp
      with assms(2) show False by simp
    qed
  next
    assume "\<exists>s. q = p @ CHR ''/'' # n @ CHR ''/'' # s"
    then obtain s where qa: "q = p @ CHR ''/'' # n @ CHR ''/'' # s" ..
    from b show False
    proof
      assume "q = p @ CHR ''/'' # m"
      with qa have "m = n @ CHR ''/'' # s" by simp
      with assms(3) show False by simp
    next
      assume "\<exists>t. q = p @ CHR ''/'' # m @ CHR ''/'' # t"
      then obtain t where "q = p @ CHR ''/'' # m @ CHR ''/'' # t" ..
      with qa have "n @ CHR ''/'' # s = m @ CHR ''/'' # t" by simp
      from slash_split [OF assms(2) assms(3) this] assms(1) show False by simp
    qed
  qed
qed

lemma below_unfold:
  "below isdir listdir p q \<longleftrightarrow>
     q = p \<or> (isdir p \<and> (\<exists>n\<in>set (listdir p). below isdir listdir (p @ ''/'' @ n) q))"
proof
  assume "below isdir listdir p q"
  then show "q = p \<or> (isdir p \<and> (\<exists>n\<in>set (listdir p). below isdir listdir (p @ ''/'' @ n) q))"
    by (rule below.cases) blast+
next
  assume "q = p \<or> (isdir p \<and> (\<exists>n\<in>set (listdir p). below isdir listdir (p @ ''/'' @ n) q))"
  then show "below isdir listdir p q"
    by (blast intro: below_self below_child)
qed

lemma files_below_file:
  "\<not> isdir p \<Longrightarrow> {q. below isdir listdir p q \<and> \<not> isdir q} = {p}"
  by (subst below_unfold) blast

lemma files_below_dir:
  "isdir p \<Longrightarrow> {q. below isdir listdir p q \<and> \<not> isdir q} =
     (\<Union>n\<in>set (listdir p). {q. below isdir listdir (p @ ''/'' @ n) q \<and> \<not> isdir q})"
  by (subst below_unfold) blast

lemma crawl_children:
  assumes "\<forall>n\<in>set ns. \<exists>fs. crawler isdir listdir [c n] = Some fs \<and> set fs = F n \<and> distinct fs"
    and "\<forall>n\<in>set ns. \<forall>m\<in>set ns. n \<noteq> m \<longrightarrow> F n \<inter> F m = {}"
    and "distinct ns"
  shows "\<exists>fs. crawler isdir listdir (map c ns) = Some fs \<and> set fs = (\<Union>n\<in>set ns. F n) \<and> distinct fs"
  using assms
proof (induction ns)
  case Nil
  show ?case by (simp add: crawler_Nil)
next
  case (Cons n ns)
  from Cons.prems(1) obtain a where a: "crawler isdir listdir [c n] = Some a"
    "set a = F n" "distinct a"
    by auto
  from Cons.prems have "\<exists>fs. crawler isdir listdir (map c ns) = Some fs
      \<and> set fs = (\<Union>n\<in>set ns. F n) \<and> distinct fs"
    by (intro Cons.IH) auto
  then obtain b where b: "crawler isdir listdir (map c ns) = Some b"
    "set b = (\<Union>n\<in>set ns. F n)" "distinct b"
    by blast
  from Cons.prems(2,3) have "\<forall>m\<in>set ns. F n \<inter> F m = {}" by auto
  with a(2) b(2) have disj: "set a \<inter> set b = {}" by auto
  have "crawler isdir listdir (map c (n # ns)) = Some (a @ b)"
  proof -
    have "crawler isdir listdir (c n # map c ns) =
        Option.bind (crawler isdir listdir [c n])
          (\<lambda>a. Option.bind (crawler isdir listdir (map c ns)) (\<lambda>b. Some (a @ b)))"
      by (rule crawler_Cons_single)
    then show ?thesis by (simp add: a(1) b(1))
  qed
  moreover have "set (a @ b) = (\<Union>n\<in>set (n # ns). F n)"
    using a(2) b(2) by auto
  moreover have "distinct (a @ b)"
    using a(3) b(3) disj by simp
  ultimately show ?case by blast
qed

lemma crawler_tree:
  assumes "finite_tree isdir listdir p" and ok: "names_ok isdir listdir"
  shows "\<exists>fs. crawler isdir listdir [p] = Some fs
           \<and> set fs = {q. below isdir listdir p q \<and> \<not> isdir q} \<and> distinct fs"
  using assms(1)
proof (induction rule: finite_tree.induct)
  case (tree_file p)
  then show ?case
    by (simp add: crawler_single files_below_file)
next
  case (tree_dir p)
  let ?c = "\<lambda>n. p @ ''/'' @ n"
  let ?F = "\<lambda>n. {q. below isdir listdir (?c n) q \<and> \<not> isdir q}"
  from ok tree_dir(1) have dist: "distinct (listdir p)"
    and noslash: "\<forall>n\<in>set (listdir p). CHR ''/'' \<notin> set n"
    by (auto simp: names_ok_def)
  have disj: "\<forall>n\<in>set (listdir p). \<forall>m\<in>set (listdir p). n \<noteq> m \<longrightarrow> ?F n \<inter> ?F m = {}"
  proof (intro ballI impI)
    fix n m assume "n \<in> set (listdir p)" "m \<in> set (listdir p)" "n \<noteq> m"
    with noslash have "CHR ''/'' \<notin> set n" "CHR ''/'' \<notin> set m" by auto
    with \<open>n \<noteq> m\<close> have "\<And>q. below isdir listdir (?c n) q \<Longrightarrow> below isdir listdir (?c m) q \<Longrightarrow> False"
      by (rule siblings_disjoint)
    then show "?F n \<inter> ?F m = {}" by blast
  qed
  from tree_dir(2)
  have "\<forall>n\<in>set (listdir p). \<exists>fs. crawler isdir listdir [?c n] = Some fs \<and> set fs = ?F n \<and> distinct fs"
    by blast
  from crawl_children [of "listdir p" isdir listdir ?c ?F, OF this disj dist]
  obtain fs where "crawler isdir listdir (map ?c (listdir p)) = Some fs"
    "set fs = (\<Union>n\<in>set (listdir p). ?F n)" "distinct fs"
    by blast
  with tree_dir(1) show ?case
    by (simp add: crawler_single files_below_dir)
qed

section \<open>The body of the main loop\<close>

lemma opened_rb_append: "opened_rb (xs @ ys) = opened_rb xs @ opened_rb ys"
  by (induction xs rule: opened_rb.induct) simp_all

lemma opened_wb_append: "opened_wb (xs @ ys) = opened_wb xs @ opened_wb ys"
  by (induction xs rule: opened_wb.induct) simp_all

text \<open>The per-target body, case by case.\<close>

lemma process_target_missing:
  "files st t = None \<Longrightarrow>
   process_target ks md5 rd wr opts tcols st t =
     (Some IOError, if verbose opts \<or> not_really opts then emit (Print_processing t) st else st)"
  by (simp add: process_target_def Let_def emit_def)

lemma files_emit: "files (emit ev st) = files st"
  and processed_emit: "processed_files (emit ev st) = processed_files st"
  and trace_emit: "trace (emit ev st) = trace st @ [ev]"
  by (simp_all add: emit_def)

lemma process_target_error:
  assumes "files st t = Some c"
    and "transform_lines ks opts tcols (crypto_init md5 (password opts)) (fst (rd c)) = Inl e"
  shows "process_target ks md5 rd wr opts tcols st t =
     (Some e, emit (Open_rb t)
        (if verbose opts \<or> not_really opts then emit (Print_processing t) st else st))"
  using assms by (simp add: process_target_def Let_def files_emit)

lemma process_target_ok:
  assumes "files st t = Some c"
    and "transform_lines ks opts tcols (crypto_init md5 (password opts)) (fst (rd c))
           = Inr (rows', e1)"
  shows "process_target ks md5 rd wr opts tcols st t =
     (None,
      let st2 = emit (Open_rb t)
            (if verbose opts \<or> not_really opts then emit (Print_processing t) st else st)
      in if snd (rd c) then emit (Print_not_csv t) st2
         else if not_really opts then emit (Print_rows rows') st2
         else (emit (Open_wb t) st2)
                \<lparr>files := (files st)(t \<mapsto> wr rows'),
                 processed_files := processed_files st + 1\<rparr>)"
  using assms by (simp add: process_target_def Let_def files_emit processed_emit)

lemma process_target_cases:
  obtains (missing) "files st t = None"
  | (error) c e where "files st t = Some c"
      "transform_lines ks opts tcols (crypto_init md5 (password opts)) (fst (rd c)) = Inl e"
  | (ok) c rows' e1 where "files st t = Some c"
      "transform_lines ks opts tcols (crypto_init md5 (password opts)) (fst (rd c))
         = Inr (rows', e1)"
proof (cases "files st t")
  case None
  then show ?thesis by (rule missing)
next
  case (Some c)
  show ?thesis
  proof (cases "transform_lines ks opts tcols (crypto_init md5 (password opts)) (fst (rd c))")
    case (Inl e)
    with Some show ?thesis by (rule error)
  next
    case (Inr p)
    then have "transform_lines ks opts tcols (crypto_init md5 (password opts)) (fst (rd c))
        = Inr (fst p, snd p)" by simp
    with Some show ?thesis by (rule ok)
  qed
qed

lemma process_target_rb:
  "opened_rb (trace (snd (process_target ks md5 rd wr opts tcols st t))) =
     opened_rb (trace st) @ (if files st t = None then [] else [t])"
proof (cases rule: process_target_cases [where st=st and t=t and ks=ks and opts=opts and tcols=tcols and ?md5.0=md5 and rd=rd])
  case missing
  then show ?thesis
    by (simp add: process_target_missing trace_emit opened_rb_append)
next
  case (error c e)
  then show ?thesis
    by (simp add: process_target_error [where rd=rd and c=c and e=e] trace_emit opened_rb_append)
next
  case (ok c rows' e1)
  then show ?thesis
    by (simp add: process_target_ok [where rd=rd and c=c and rows'=rows' and ?e1.0=e1] Let_def trace_emit opened_rb_append)
qed

lemma process_target_wb:
  "\<exists>ws. opened_wb (trace (snd (process_target ks md5 rd wr opts tcols st t))) =
         opened_wb (trace st) @ ws \<and> (ws = [] \<or> ws = [t] \<and> files st t \<noteq> None)"
proof (cases rule: process_target_cases [where st=st and t=t and ks=ks and opts=opts and tcols=tcols and ?md5.0=md5 and rd=rd])
  case missing
  then show ?thesis
    by (simp add: process_target_missing trace_emit opened_wb_append)
next
  case (error c e)
  then show ?thesis
    by (simp add: process_target_error [where rd=rd and c=c and e=e] trace_emit opened_wb_append)
next
  case (ok c rows' e1)
  then show ?thesis
    by (simp add: process_target_ok [where rd=rd and c=c and rows'=rows' and ?e1.0=e1] Let_def trace_emit opened_wb_append)
qed

lemma process_target_opened:
  "fst (process_target ks md5 rd wr opts tcols st t) = None \<Longrightarrow> files st t \<noteq> None"
  by (cases "files st t") (simp_all add: process_target_missing)

section \<open>The main loop\<close>

lemma main_loop_Cons:
  "main_loop ks md5 rd wr opts tcols st (t # rest) =
     (case fst (process_target ks md5 rd wr opts tcols st t) of
        Some e \<Rightarrow> (Some e, snd (process_target ks md5 rd wr opts tcols st t))
      | None \<Rightarrow> main_loop ks md5 rd wr opts tcols
                  (snd (process_target ks md5 rd wr opts tcols st t)) rest)"
  by (cases "process_target ks md5 rd wr opts tcols st t")
     (simp split: option.splits)

lemma distinct_mset_subset:
  assumes "mset ws \<subseteq># mset xs" and "distinct xs"
  shows "distinct ws"
proof -
  from assms(1) obtain C where C: "mset xs = mset ws + C"
    by (auto simp: mset_subset_eq_exists_conv)
  obtain cs where "C = mset cs" by (metis ex_mset)
  with C have "mset xs = mset (ws @ cs)" by simp
  then have "distinct xs = distinct (ws @ cs)" by (rule mset_eq_imp_distinct_iff)
  with assms(2) show ?thesis by simp
qed

lemma main_loop_touched:
  "\<exists>k ws. k \<le> length targets
     \<and> opened_rb (trace (snd (main_loop ks md5 rd wr opts tcols st targets)))
         = opened_rb (trace st) @ take k targets
     \<and> (fst (main_loop ks md5 rd wr opts tcols st targets) = None \<longrightarrow> k = length targets)
     \<and> opened_wb (trace (snd (main_loop ks md5 rd wr opts tcols st targets)))
         = opened_wb (trace st) @ ws
     \<and> mset ws \<subseteq># mset (take k targets)"
proof (induction targets arbitrary: st)
  case Nil
  show ?case by simp
next
  case (Cons t rest)
  define r where "r = process_target ks md5 rd wr opts tcols st t"
  from process_target_wb [of ks md5 rd wr opts tcols st t] obtain w1 where
    w1: "opened_wb (trace (snd r)) = opened_wb (trace st) @ w1"
      and w1': "w1 = [] \<or> w1 = [t] \<and> files st t \<noteq> None"
    unfolding r_def by blast
  have rb1: "opened_rb (trace (snd r)) = opened_rb (trace st) @ (if files st t = None then [] else [t])"
    unfolding r_def by (rule process_target_rb)
  show ?case
  proof (cases "fst r")
    case (Some e)
    then have ml: "main_loop ks md5 rd wr opts tcols st (t # rest) = (Some e, snd r)"
      unfolding r_def by (simp only: main_loop_Cons option.case)
    show ?thesis
    proof (cases "files st t = None")
      case True
      with w1' have "w1 = []" by blast
      with w1 have a: "opened_wb (trace (snd r)) = opened_wb (trace st) @ []" by (simp only:)
      from True have "(if files st t = None then [] else [t]) = take 0 (t # rest)" by simp
      with rb1 have b: "opened_rb (trace (snd r)) = opened_rb (trace st) @ take 0 (t # rest)"
        by (simp only:)
      show ?thesis
        apply (rule exI [of _ 0], rule exI [of _ "[]"])
        apply (simp only: ml snd_conv fst_conv a b)
        apply simp
        done
    next
      case False
      from w1' have c: "mset w1 \<subseteq># mset (take 1 (t # rest))" by auto
      from False have "(if files st t = None then [] else [t]) = take 1 (t # rest)" by simp
      with rb1 have b: "opened_rb (trace (snd r)) = opened_rb (trace st) @ take 1 (t # rest)"
        by (simp only:)
      show ?thesis
        apply (rule exI [of _ 1], rule exI [of _ w1])
        apply (simp only: ml snd_conv fst_conv w1 b)
        using c apply simp
        done
    qed
  next
    case None
    then have ml: "main_loop ks md5 rd wr opts tcols st (t # rest)
        = main_loop ks md5 rd wr opts tcols (snd r) rest"
      unfolding r_def by (simp only: main_loop_Cons option.case)
    from None have op: "files st t \<noteq> None"
      unfolding r_def by (rule process_target_opened)
    define m where "m = main_loop ks md5 rd wr opts tcols (snd r) rest"
    have "\<exists>k ws. k \<le> length rest
       \<and> opened_rb (trace (snd m)) = opened_rb (trace (snd r)) @ take k rest
       \<and> (fst m = None \<longrightarrow> k = length rest)
       \<and> opened_wb (trace (snd m)) = opened_wb (trace (snd r)) @ ws
       \<and> mset ws \<subseteq># mset (take k rest)"
      unfolding m_def by (rule Cons.IH)
    then obtain k where "\<exists>ws. k \<le> length rest
       \<and> opened_rb (trace (snd m)) = opened_rb (trace (snd r)) @ take k rest
       \<and> (fst m = None \<longrightarrow> k = length rest)
       \<and> opened_wb (trace (snd m)) = opened_wb (trace (snd r)) @ ws
       \<and> mset ws \<subseteq># mset (take k rest)" ..
    then obtain ws where ih: "k \<le> length rest
       \<and> opened_rb (trace (snd m)) = opened_rb (trace (snd r)) @ take k rest
       \<and> (fst m = None \<longrightarrow> k = length rest)
       \<and> opened_wb (trace (snd m)) = opened_wb (trace (snd r)) @ ws
       \<and> mset ws \<subseteq># mset (take k rest)" ..
    note k = ih [THEN conjunct1]
      and rb = ih [THEN conjunct2, THEN conjunct1]
      and fin = ih [THEN conjunct2, THEN conjunct2, THEN conjunct1]
      and wb = ih [THEN conjunct2, THEN conjunct2, THEN conjunct2, THEN conjunct1]
      and sub = ih [THEN conjunct2, THEN conjunct2, THEN conjunct2, THEN conjunct2]
    from w1' have "mset w1 \<subseteq># {#t#}" by auto
    from subset_mset.add_mono [OF this sub]
    have sub': "mset (w1 @ ws) \<subseteq># mset (take (Suc k) (t # rest))"
      by simp
    from op have "(if files st t = None then [] else [t]) = [t]" by simp
    with rb1 have "opened_rb (trace (snd r)) = opened_rb (trace st) @ [t]" by (simp only:)
    with rb have rb': "opened_rb (trace (snd m)) = opened_rb (trace st) @ take (Suc k) (t # rest)"
      by simp
    from wb w1 have wb': "opened_wb (trace (snd m)) = opened_wb (trace st) @ (w1 @ ws)"
      by simp
    from k fin have k': "Suc k \<le> length (t # rest)" "fst m = None \<longrightarrow> Suc k = length (t # rest)"
      by simp_all
    have eq: "main_loop ks md5 rd wr opts tcols st (t # rest) = m"
      by (simp only: ml m_def)
    show ?thesis
      unfolding eq
      by (rule exI [of _ "Suc k"], rule exI [of _ "w1 @ ws"]) (intro conjI k' rb' wb' sub')
  qed
qed

section \<open>Runs of the program\<close>

text \<open>The options of a run have no column list.\<close>

lemma read_options_columns:
  assumes "read_options ex cl = Inr opts"
  shows "columns opts = None" and "\<not> columns_given opts" and "target_columns opts = []"
proof -
  from assms show c: "columns opts = None"
    by (auto simp: read_options_def split: if_splits)
  then show "\<not> columns_given opts" by (simp add: columns_given_def)
  from c show "target_columns opts = []" by (simp add: target_columns_def)
qed

text \<open>Without a column list every field meets the key stream where the fields before it end.\<close>

lemma map_crypto_nth:
  "i < length line \<Longrightarrow>
   fst (map_crypto ks e line) ! i =
     fst (crypto ks (e\<lparr>aes_pos := aes_pos e + sum_list (map length (take i line))\<rparr>) (line ! i))"
proof (induction line arbitrary: e i)
  case Nil
  then show ?case by simp
next
  case (Cons f rest)
  show ?case
  proof (cases i)
    case 0
    then show ?thesis by (simp add: case_prod_beta)
  next
    case (Suc j)
    with Cons.prems have j: "j < length rest" by simp
    have e: "snd (crypto ks e f) = e\<lparr>aes_pos := aes_pos e + length f\<rparr>"
      by (simp add: crypto_def process_def)
    from Cons.IH [OF j, of "snd (crypto ks e f)"] Suc show ?thesis
      by (simp add: case_prod_beta e add.assoc)
  qed
qed

lemma transform_lines_no_columns:
  "\<not> columns_given opts \<Longrightarrow>
   \<exists>rows'. transform_lines ks opts tcols e rows
              = Inr (rows', e\<lparr>aes_pos := aes_pos e + length (concat (concat rows))\<rparr>)
        \<and> concat (concat rows') = fst (process ks e (concat (concat rows)))
        \<and> map (map length) rows' = map (map length) rows"
proof (induction rows arbitrary: e)
  case Nil
  show ?case by (simp add: process_def)
next
  case (Cons line rest)
  let ?e1 = "snd (map_crypto ks e line)"
  have e1: "?e1 = e\<lparr>aes_pos := aes_pos e + length (concat line)\<rparr>"
    by (simp add: map_crypto_pos length_concat)
  have e1': "?e1 = snd (process ks e (concat line))"
    by (simp add: e1 process_pos)
  from Cons.IH [OF Cons.prems, of ?e1] obtain rest' where
    r: "transform_lines ks opts tcols ?e1 rest
          = Inr (rest', ?e1\<lparr>aes_pos := aes_pos ?e1 + length (concat (concat rest))\<rparr>)"
    and c: "concat (concat rest') = fst (process ks ?e1 (concat (concat rest)))"
    and l: "map (map length) rest' = map (map length) rest"
    by blast
  have "transform_lines ks opts tcols e (line # rest)
      = Inr (fst (map_crypto ks e line) # rest',
             e\<lparr>aes_pos := aes_pos e + length (concat (concat (line # rest)))\<rparr>)"
    using Cons.prems
    by (simp add: transform_line_def case_prod_beta e1 r [unfolded e1] add.assoc)
  moreover have "concat (concat (fst (map_crypto ks e line) # rest'))
      = fst (process ks e (concat (concat (line # rest))))"
    by (simp add: c map_crypto_concat process_append e1')
  moreover have "map (map length) (fst (map_crypto ks e line) # rest')
      = map (map length) (line # rest)"
    by (simp add: l map_crypto_lengths)
  ultimately show ?case by blast
qed

text \<open>The rows depend on the options through the column list only.\<close>

lemma transform_line_columns:
  "columns opts2 = columns opts1 \<Longrightarrow> transform_line ks opts2 = transform_line ks opts1"
  by (intro ext) (simp add: transform_line_def columns_given_def)

lemma transform_lines_columns:
  assumes "columns opts2 = columns opts1"
  shows "transform_lines ks opts2 tcols e rows = transform_lines ks opts1 tcols e rows"
  by (induction rows arbitrary: e)
     (simp_all add: transform_line_columns [OF assms] split: sum.splits prod.splits)

text \<open>A file that is parsed and transformed is rewritten, when the run is not a dry one.\<close>

lemma process_target_written:
  assumes "files st t = Some c" and "\<not> snd (rd c)" and "\<not> not_really opts"
    and "transform_lines ks opts tcols \<lparr>aes_key = md5 (password opts), aes_pos = 0\<rparr> (fst (rd c))
           = Inr (rows', e1)"
  shows "fst (process_target ks md5 rd wr opts tcols st t) = None"
    and "files (snd (process_target ks md5 rd wr opts tcols st t)) = (files st)(t \<mapsto> wr rows')"
    and "processed_files (snd (process_target ks md5 rd wr opts tcols st t))
           = processed_files st + 1"
proof -
  from assms(4) have tl: "transform_lines ks opts tcols (crypto_init md5 (password opts)) (fst (rd c))
           = Inr (rows', e1)"
    by (simp add: crypto_init_def)
  note pt = process_target_ok [where rd=rd and c=c and rows'=rows' and ?e1.0=e1, OF assms(1) tl]
  show "fst (process_target ks md5 rd wr opts tcols st t) = None"
    unfolding pt by simp
  show "files (snd (process_target ks md5 rd wr opts tcols st t)) = (files st)(t \<mapsto> wr rows')"
    unfolding pt using assms(2,3) by (simp add: Let_def)
  show "processed_files (snd (process_target ks md5 rd wr opts tcols st t))
           = processed_files st + 1"
    unfolding pt using assms(2,3) by (simp add: Let_def)
qed

text \<open>What the program does before the main logic leaves the state as it is.\<close>

lemma main_program_run:
  assumes "main_program ks md5 rd wr ex abspath isdir listdir cl st = Some (Inr (r, st1))"
  shows "\<exists>opts. read_options ex cl = Inr opts
           \<and> run ks md5 rd wr isdir listdir opts (map abspath (arg_paths cl)) st = Some (r, st1)"
  using assms by (auto simp: main_program_def split: sum.splits)

text \<open>The files a run of the main logic opens, against the result of the crawler.\<close>

lemma run_touched:
  assumes "run ks md5 rd wr isdir listdir opts paths st = Some (r, st1)"
    and "trace st = []"
  shows "\<exists>targets k. crawler isdir listdir paths = Some targets
           \<and> k \<le> length targets
           \<and> opened_rb (trace st1) = take k targets
           \<and> (r = None \<longrightarrow> k = length targets)
           \<and> mset (opened_wb (trace st1)) \<subseteq># mset (take k targets)"
proof -
  from assms(1) obtain targets where cr: "crawler isdir listdir paths = Some targets"
    by (auto simp: run_def split: option.splits)
  define m where "m = main_loop ks md5 rd wr opts (target_columns opts) st targets"
  have "\<exists>k ws. k \<le> length targets
     \<and> opened_rb (trace (snd m)) = opened_rb (trace st) @ take k targets
     \<and> (fst m = None \<longrightarrow> k = length targets)
     \<and> opened_wb (trace (snd m)) = opened_wb (trace st) @ ws
     \<and> mset ws \<subseteq># mset (take k targets)"
    unfolding m_def by (rule main_loop_touched)
  then obtain k where "\<exists>ws. k \<le> length targets
     \<and> opened_rb (trace (snd m)) = opened_rb (trace st) @ take k targets
     \<and> (fst m = None \<longrightarrow> k = length targets)
     \<and> opened_wb (trace (snd m)) = opened_wb (trace st) @ ws
     \<and> mset ws \<subseteq># mset (take k targets)" ..
  then obtain ws where ml: "k \<le> length targets
     \<and> opened_rb (trace (snd m)) = opened_rb (trace st) @ take k targets
     \<and> (fst m = None \<longrightarrow> k = length targets)
     \<and> opened_wb (trace (snd m)) = opened_wb (trace st) @ ws
     \<and> mset ws \<subseteq># mset (take k targets)" ..
  note k = ml [THEN conjunct1]
    and rb = ml [THEN conjunct2, THEN conjunct1]
    and fin = ml [THEN conjunct2, THEN conjunct2, THEN conjunct1]
    and wb = ml [THEN conjunct2, THEN conjunct2, THEN conjunct2, THEN conjunct1]
    and sub = ml [THEN conjunct2, THEN conjunct2, THEN conjunct2, THEN conjunct2]
  from assms(1) cr have res: "(r, st1) =
     (case m of (Some e, s) \<Rightarrow> (Some e, s)
      | (None, s) \<Rightarrow> (None, emit (if processed_files s = 0 then Print_nothing_done
                                  else Print_altered (processed_files s)) s))"
    by (simp add: run_def m_def)
  have r: "r = fst m"
    and rb1: "opened_rb (trace st1) = opened_rb (trace (snd m))"
    and wb1: "opened_wb (trace st1) = opened_wb (trace (snd m))"
    using res
    by (cases m; cases "fst m"; simp add: trace_emit opened_rb_append opened_wb_append)+
  from rb rb1 assms(2) have a: "opened_rb (trace st1) = take k targets" by simp
  from wb wb1 assms(2) have b: "opened_wb (trace st1) = ws" by simp
  from fin r have c: "r = None \<longrightarrow> k = length targets" by simp
  from sub b have d: "mset (opened_wb (trace st1)) \<subseteq># mset (take k targets)" by simp
  show ?thesis
    by (rule exI [of _ targets], rule exI [of _ k]) (intro conjI cr k a c d)
qed


section \<open>Properties of the cipher and of the file transformation\<close>

text \<open>
  C1 (involution). For every password, every column list and every parsed file whose
  rows all have the selected fields, transforming the rows of the file with a cipher
  object fresh from \<open>crypto_init\<close>, and transforming the result again with another fresh
  object for the same password and columns, gives the rows of the file back. Both
  passes leave the cipher object at the same position.
\<close>

theorem involution:
  assumes "\<forall>line\<in>set rows. \<forall>c\<in>set tcols. c < length line"
  shows "\<exists>rows' e1.
           transform_lines ks opts tcols (crypto_init md5 (password opts)) rows = Inr (rows', e1)
         \<and> transform_lines ks opts tcols (crypto_init md5 (password opts)) rows' = Inr (rows, e1)"
  using transform_lines_twice [of opts rows tcols ks "crypto_init md5 (password opts)"] assms
  by blast

theorem involution_witness:
  "\<exists>rows' e1.
     transform_lines (\<lambda>k i. of_nat i + 1)
       \<lparr>columns = Some ''1'', password = [112, 119], not_really = False, verbose = False\<rparr> [1]
       (crypto_init (\<lambda>p. of_nat (length p)) (password
          \<lparr>columns = Some ''1'', password = [112, 119], not_really = False, verbose = False\<rparr>))
       [[[49], [115, 101]], [[50], [99]]] = Inr (rows', e1)
   \<and> transform_lines (\<lambda>k i. of_nat i + 1)
       \<lparr>columns = Some ''1'', password = [112, 119], not_really = False, verbose = False\<rparr> [1]
       (crypto_init (\<lambda>p. of_nat (length p)) (password
          \<lparr>columns = Some ''1'', password = [112, 119], not_really = False, verbose = False\<rparr>))
       rows' = Inr ([[[49], [115, 101]], [[50], [99]]], e1)"
  by (rule involution) simp

text \<open>
  C4 (stream continuity). From any position of the cipher object, \<open>crypto\<close> on \<open>a\<close> and
  then on \<open>b\<close> gives the two parts of \<open>crypto\<close> on \<open>a @ b\<close>, cut at the length of \<open>a\<close>,
  and leaves the object where the single call leaves it. For a row transformed without
  a column list, the fields of the result are the result for the concatenated fields,
  cut at the field boundaries.
\<close>

theorem stream_continuity:
  "fst (crypto ks e a) = take (length a) (fst (crypto ks e (a @ b)))
   \<and> fst (crypto ks (snd (crypto ks e a)) b) = drop (length a) (fst (crypto ks e (a @ b)))
   \<and> snd (crypto ks (snd (crypto ks e a)) b) = snd (crypto ks e (a @ b))
   \<and> concat (fst (map_crypto ks e line)) = fst (crypto ks e (concat line))
   \<and> map length (fst (map_crypto ks e line)) = map length line
   \<and> snd (map_crypto ks e line) = snd (crypto ks e (concat line))"
proof -
  have len: "length (fst (process ks e a)) = length a"
    by (simp add: process_def)
  have "snd (map_crypto ks e line) = snd (process ks e (concat line))"
    by (simp add: map_crypto_pos process_pos length_concat)
  then show ?thesis
    by (simp add: crypto_def process_append len map_crypto_concat map_crypto_lengths)
qed

theorem stream_continuity_witness:
  "fst (crypto (\<lambda>k i. of_nat i + 1) \<lparr>aes_key = 7, aes_pos = 4\<rparr> [10, 20])
     = take 2 (fst (crypto (\<lambda>k i. of_nat i + 1) \<lparr>aes_key = 7, aes_pos = 4\<rparr> [10, 20, 30]))
   \<and> fst (crypto (\<lambda>k i. of_nat i + 1)
            (snd (crypto (\<lambda>k i. of_nat i + 1) \<lparr>aes_key = 7, aes_pos = 4\<rparr> [10, 20])) [30])
     = drop 2 (fst (crypto (\<lambda>k i. of_nat i + 1) \<lparr>aes_key = 7, aes_pos = 4\<rparr> [10, 20, 30]))"
  using stream_continuity [of "\<lambda>k i. of_nat i + 1" "\<lparr>aes_key = 7, aes_pos = 4\<rparr>" "[10, 20]" "[30]" "[]"]
  by (simp add: numeral_2_eq_2)

text \<open>
  C10 (length preservation). From any position, \<open>crypto\<close> returns as many bytes as it
  is given and moves the cipher object on by that many; on the empty string it returns
  the empty string and leaves the object as it was. Whenever the rows of a file are
  transformed, with or without a column list, every field of every row keeps its length.
\<close>

theorem length_preservation:
  "length (fst (crypto ks e s)) = length s
   \<and> snd (crypto ks e s) = e\<lparr>aes_pos := aes_pos e + length s\<rparr>
   \<and> crypto ks e [] = ([], e)
   \<and> (\<forall>rows' e1. transform_lines ks opts tcols e rows = Inr (rows', e1)
         \<longrightarrow> map (map length) rows' = map (map length) rows)"
  by (auto simp: crypto_def process_def dest: transform_lines_lengths)

theorem length_preservation_witness:
  "length (fst (crypto (\<lambda>k i. of_nat i + 1) \<lparr>aes_key = 7, aes_pos = 4\<rparr> [10, 20, 30])) = 3
   \<and> crypto (\<lambda>k i. of_nat i + 1) \<lparr>aes_key = 7, aes_pos = 4\<rparr> [] = ([], \<lparr>aes_key = 7, aes_pos = 4\<rparr>)
   \<and> map (map length) [[[49], [114, 103]], [[50], [96]]] = map (map length) [[[49], [115, 101]], [[50], [99]]]"
proof -
  have "transform_lines (\<lambda>k i. of_nat i + 1)
       \<lparr>columns = Some ''1'', password = [112, 119], not_really = False, verbose = False\<rparr> [1]
       \<lparr>aes_key = 2, aes_pos = 0\<rparr> [[[49], [115, 101]], [[50], [99]]]
     = Inr ([[[49], [114, 103]], [[50], [96]]], \<lparr>aes_key = 2, aes_pos = 3\<rparr>)"
    by (simp add: transform_line_def columns_given_def crypto_def process_def)
  with length_preservation [of "\<lambda>k i. of_nat i + 1" "\<lparr>aes_key = 7, aes_pos = 4\<rparr>" "[10, 20, 30]"
      "\<lparr>columns = Some ''1'', password = [112, 119], not_really = False, verbose = False\<rparr>" "[1]"
      "[[[49], [115, 101]], [[50], [99]]]"]
  show ?thesis
    by (simp add: crypto_def process_def)
qed

section \<open>Properties of the crawler\<close>

text \<open>
  C9 (crawl completeness). Where what lies under \<open>root\<close> is a directory tree of finite
  depth, and the names in a directory are distinct and have no slash, \<open>crawler\<close> returns
  on \<open>[root]\<close>, and what it returns is the list of the paths at or under \<open>root\<close> that are
  not directories: each of them, each once, and no directory. With further paths after
  \<open>root\<close> in the input, that list comes first and the expansion of the other paths
  follows it.
\<close>

theorem crawl_completeness:
  assumes "finite_tree isdir listdir root" and "names_ok isdir listdir"
  shows "\<exists>fs. crawler isdir listdir [root] = Some fs
           \<and> set fs = {q. below isdir listdir root q \<and> \<not> isdir q}
           \<and> distinct fs
           \<and> length fs = card {q. below isdir listdir root q \<and> \<not> isdir q}
           \<and> crawler isdir listdir (root # rest) =
               Option.bind (crawler isdir listdir rest) (\<lambda>unrolled. Some (fs @ unrolled))"
proof -
  from crawler_tree [OF assms] obtain fs where
    fs: "crawler isdir listdir [root] = Some fs"
    "set fs = {q. below isdir listdir root q \<and> \<not> isdir q}" "distinct fs"
    by blast
  from fs(2,3) have "length fs = card {q. below isdir listdir root q \<and> \<not> isdir q}"
    by (metis distinct_card)
  moreover have "crawler isdir listdir (root # rest) =
      Option.bind (crawler isdir listdir rest) (\<lambda>unrolled. Some (fs @ unrolled))"
    by (subst crawler_Cons_single) (simp add: fs(1))
  ultimately show ?thesis using fs by blast
qed

theorem crawl_completeness_witness:
  "\<exists>fs. crawler (\<lambda>p. p = ''/d'' \<or> p = ''/d/s'')
           (\<lambda>p. if p = ''/d'' then [''a'', ''s''] else if p = ''/d/s'' then [''b''] else [])
           [''/d''] = Some fs
      \<and> set fs = {q. below (\<lambda>p. p = ''/d'' \<or> p = ''/d/s'')
           (\<lambda>p. if p = ''/d'' then [''a'', ''s''] else if p = ''/d/s'' then [''b''] else [])
           ''/d'' q \<and> \<not> (q = ''/d'' \<or> q = ''/d/s'')}
      \<and> distinct fs
      \<and> length fs = card {q. below (\<lambda>p. p = ''/d'' \<or> p = ''/d/s'')
           (\<lambda>p. if p = ''/d'' then [''a'', ''s''] else if p = ''/d/s'' then [''b''] else [])
           ''/d'' q \<and> \<not> (q = ''/d'' \<or> q = ''/d/s'')}
      \<and> crawler (\<lambda>p. p = ''/d'' \<or> p = ''/d/s'')
           (\<lambda>p. if p = ''/d'' then [''a'', ''s''] else if p = ''/d/s'' then [''b''] else [])
           [''/d'', ''/x''] =
         Option.bind (crawler (\<lambda>p. p = ''/d'' \<or> p = ''/d/s'')
           (\<lambda>p. if p = ''/d'' then [''a'', ''s''] else if p = ''/d/s'' then [''b''] else [])
           [''/x'']) (\<lambda>unrolled. Some (fs @ unrolled))"
proof (rule crawl_completeness)
  let ?I = "\<lambda>p. p = ''/d'' \<or> p = ''/d/s''"
  let ?L = "\<lambda>p. if p = ''/d'' then [''a'', ''s''] else if p = ''/d/s'' then [''b''] else []"
  have a: "finite_tree ?I ?L ''/d/a''" by (rule tree_file) simp
  have b: "finite_tree ?I ?L ''/d/s/b''" by (rule tree_file) simp
  have s: "finite_tree ?I ?L ''/d/s''" by (rule tree_dir) (simp_all add: b)
  show "finite_tree ?I ?L ''/d''" by (rule tree_dir) (simp_all add: a s)
  show "names_ok ?I ?L" by (auto simp: names_ok_def)
qed

section \<open>Properties of a run\<close>

text \<open>
  C7, as amended (no password is refused). \<open>crypto_init\<close> returns a cipher object for
  every password, the empty one too: the key is the digest of the password and the
  position is zero. For every password, a file that can be opened and parsed and whose
  rows have the selected fields is transformed and rewritten.
\<close>

theorem crypto_init_every_password:
  assumes "files st target = Some contents" and "\<not> snd (rd contents)"
    and "\<forall>line\<in>set (fst (rd contents)). \<forall>c\<in>set tcols. c < length line"
    and "\<not> not_really opts"
  shows "crypto_init md5 (password opts) = \<lparr>aes_key = md5 (password opts), aes_pos = 0\<rparr>
       \<and> (\<exists>rows' e1.
            transform_lines ks opts tcols \<lparr>aes_key = md5 (password opts), aes_pos = 0\<rparr>
              (fst (rd contents)) = Inr (rows', e1)
          \<and> fst (process_target ks md5 rd wr opts tcols st target) = None
          \<and> files (snd (process_target ks md5 rd wr opts tcols st target))
              = (files st)(target \<mapsto> wr rows')
          \<and> processed_files (snd (process_target ks md5 rd wr opts tcols st target))
              = processed_files st + 1)"
proof -
  have init: "crypto_init md5 (password opts) = \<lparr>aes_key = md5 (password opts), aes_pos = 0\<rparr>"
    by (simp add: crypto_init_def)
  from transform_lines_twice [of opts "fst (rd contents)" tcols ks "crypto_init md5 (password opts)"]
    assms(3)
  obtain rows' e1 where
    tl: "transform_lines ks opts tcols (crypto_init md5 (password opts)) (fst (rd contents))
           = Inr (rows', e1)"
    by blast
  note pt = process_target_ok [where rd=rd and c=contents and rows'=rows' and ?e1.0=e1,
      OF assms(1) tl]
  have "fst (process_target ks md5 rd wr opts tcols st target) = None
          \<and> files (snd (process_target ks md5 rd wr opts tcols st target))
              = (files st)(target \<mapsto> wr rows')
          \<and> processed_files (snd (process_target ks md5 rd wr opts tcols st target))
              = processed_files st + 1"
    unfolding pt using assms(2,4) by (simp add: Let_def)
  with tl init show ?thesis by auto
qed

theorem crypto_init_every_password_witness:
  "\<exists>rows' e1.
      transform_lines (\<lambda>k i. of_nat i + 1)
        \<lparr>columns = None, password = [], not_really = False, verbose = False\<rparr> []
        \<lparr>aes_key = (\<lambda>p. of_nat (length p)) (password
            \<lparr>columns = None, password = [], not_really = False, verbose = False\<rparr>),
         aes_pos = 0\<rparr>
        (fst ((\<lambda>b. ([map (\<lambda>x. [x]) b], False)) [3, 4])) = Inr (rows', e1)
    \<and> fst (process_target (\<lambda>k i. of_nat i + 1) (\<lambda>p. of_nat (length p))
        (\<lambda>b. ([map (\<lambda>x. [x]) b], False)) (\<lambda>rows. concat (concat rows))
        \<lparr>columns = None, password = [], not_really = False, verbose = False\<rparr> []
        \<lparr>files = [''/a'' \<mapsto> [3, 4]], processed_files = 0, trace = []\<rparr> ''/a'') = None
    \<and> files (snd (process_target (\<lambda>k i. of_nat i + 1) (\<lambda>p. of_nat (length p))
        (\<lambda>b. ([map (\<lambda>x. [x]) b], False)) (\<lambda>rows. concat (concat rows))
        \<lparr>columns = None, password = [], not_really = False, verbose = False\<rparr> []
        \<lparr>files = [''/a'' \<mapsto> [3, 4]], processed_files = 0, trace = []\<rparr> ''/a''))
      = (files \<lparr>files = [''/a'' \<mapsto> [3, 4]], processed_files = 0, trace = []\<rparr>)
          (''/a'' \<mapsto> (\<lambda>rows. concat (concat rows)) rows')
    \<and> processed_files (snd (process_target (\<lambda>k i. of_nat i + 1) (\<lambda>p. of_nat (length p))
        (\<lambda>b. ([map (\<lambda>x. [x]) b], False)) (\<lambda>rows. concat (concat rows))
        \<lparr>columns = None, password = [], not_really = False, verbose = False\<rparr> []
        \<lparr>files = [''/a'' \<mapsto> [3, 4]], processed_files = 0, trace = []\<rparr> ''/a''))
      = processed_files \<lparr>files = [''/a'' \<mapsto> [3, 4]], processed_files = 0, trace = []\<rparr> + 1"
  by (rule crypto_init_every_password [where contents = "[3, 4]", THEN conjunct2]) simp_all

text \<open>
  The claim as stated fails for the empty password: it is accepted, and the file is
  rewritten with a key that is the digest of the empty string.
\<close>

theorem empty_password_counterexample:
  "(case run (\<lambda>k i. of_nat i + 1) (\<lambda>p. of_nat (length p))
      (\<lambda>b. ([map (\<lambda>x. [x]) b], False)) (\<lambda>rows. concat (concat rows))
      (\<lambda>p. False) (\<lambda>p. [])
      \<lparr>columns = None, password = [], not_really = False, verbose = False\<rparr>
      [''/a'']
      \<lparr>files = [''/a'' \<mapsto> [3, 4]], processed_files = 0, trace = []\<rparr> of
      None \<Rightarrow> False
    | Some (r, st) \<Rightarrow> r = None
        \<and> trace st = [Open_rb ''/a'', Open_wb ''/a'', Print_altered 1]
        \<and> files st ''/a'' = Some [2, 6] \<and> processed_files st = 1)
   \<and> crypto_init (\<lambda>p. of_nat (length p)) [] = \<lparr>aes_key = 0, aes_pos = 0\<rparr>"
  by (simp add: run_def crawler_Cons crawler_Nil target_columns_def
      process_target_def crypto_init_def transform_line_def columns_given_def emit_def
      crypto_def process_def)




text \<open>
  C6 (one cipher object for each file). Every target file is transformed with a cipher
  object of its own, whose key is the digest of the password and whose position is zero.
  So for two runs with the same password and the same column list, and two files that are
  parsed to the same rows, in whatever state and at whatever place among the targets: the
  rows are transformed from position zero under the digest of the password, both files are
  rewritten, and both with the same bytes. In particular the second file of a run is
  transformed as the first one is. Without a column list the bytes of the fields, in
  order, are those of the file combined with the key stream from position zero, and the
  fields keep their lengths.
\<close>

theorem fresh_handle_per_file:
  assumes f1: "files st1 t1 = Some c1" and f2: "files st2 t2 = Some c2"
    and same: "rd c1 = rd c2" and ok: "\<not> snd (rd c1)"
    and pw: "password opts2 = password opts" and cols: "columns opts2 = columns opts"
    and wet: "\<not> not_really opts" and wet2: "\<not> not_really opts2"
    and inr: "\<forall>line\<in>set (fst (rd c1)). \<forall>c\<in>set tcols. c < length line"
  shows "\<exists>rows' e1.
        transform_lines ks opts tcols \<lparr>aes_key = md5 (password opts), aes_pos = 0\<rparr> (fst (rd c1))
          = Inr (rows', e1)
      \<and> fst (process_target ks md5 rd wr opts tcols st1 t1) = None
      \<and> files (snd (process_target ks md5 rd wr opts tcols st1 t1)) = (files st1)(t1 \<mapsto> wr rows')
      \<and> fst (process_target ks md5 rd wr opts2 tcols st2 t2) = None
      \<and> files (snd (process_target ks md5 rd wr opts2 tcols st2 t2)) = (files st2)(t2 \<mapsto> wr rows')
      \<and> (opts2 = opts \<and> st2 = snd (process_target ks md5 rd wr opts tcols st1 t1) \<longrightarrow>
           fst (main_loop ks md5 rd wr opts tcols st1 [t1, t2]) = None
         \<and> files (snd (main_loop ks md5 rd wr opts tcols st1 [t1, t2]))
             = (files st1)(t1 \<mapsto> wr rows', t2 \<mapsto> wr rows'))
      \<and> (\<not> columns_given opts \<longrightarrow>
           map (map length) rows' = map (map length) (fst (rd c1))
         \<and> concat (concat rows') =
             map2 (XOR) (concat (concat (fst (rd c1))))
               (map (ks (md5 (password opts))) [0 ..< length (concat (concat (fst (rd c1))))]))"
proof -
  let ?e = "\<lparr>aes_key = md5 (password opts), aes_pos = 0\<rparr>"
  from transform_lines_twice [of opts "fst (rd c1)" tcols ks ?e] inr
  obtain rows' e1 where tl: "transform_lines ks opts tcols ?e (fst (rd c1)) = Inr (rows', e1)"
    by blast
  from tl same have tl2: "transform_lines ks opts2 tcols
      \<lparr>aes_key = md5 (password opts2), aes_pos = 0\<rparr> (fst (rd c2)) = Inr (rows', e1)"
    by (simp add: pw transform_lines_columns [OF cols])
  from ok same have ok2: "\<not> snd (rd c2)" by simp
  note p1 = process_target_written [where rd=rd and c=c1 and ?md5.0=md5 and st=st1 and t=t1, OF f1 ok wet tl]
  note p2 = process_target_written [where rd=rd and c=c2 and ?md5.0=md5 and st=st2 and t=t2, OF f2 ok2 wet2 tl2]
  have batch: "opts2 = opts \<and> st2 = snd (process_target ks md5 rd wr opts tcols st1 t1) \<longrightarrow>
           fst (main_loop ks md5 rd wr opts tcols st1 [t1, t2]) = None
         \<and> files (snd (main_loop ks md5 rd wr opts tcols st1 [t1, t2]))
             = (files st1)(t1 \<mapsto> wr rows', t2 \<mapsto> wr rows')"
  proof
    assume both: "opts2 = opts \<and> st2 = snd (process_target ks md5 rd wr opts tcols st1 t1)"
    then have st2: "st2 = snd (process_target ks md5 rd wr opts tcols st1 t1)" ..
    from both have o2: "opts2 = opts" ..
    note p2 = p2 [unfolded o2]
    have ml: "main_loop ks md5 rd wr opts tcols st1 [t1, t2]
        = (fst (process_target ks md5 rd wr opts tcols st2 t2),
           snd (process_target ks md5 rd wr opts tcols st2 t2))"
      by (simp only: main_loop_Cons p1(1) option.case st2 [symmetric] p2(1))
         (simp add: p2(1))
    show "fst (main_loop ks md5 rd wr opts tcols st1 [t1, t2]) = None
         \<and> files (snd (main_loop ks md5 rd wr opts tcols st1 [t1, t2]))
             = (files st1)(t1 \<mapsto> wr rows', t2 \<mapsto> wr rows')"
      unfolding ml using p2(1) p2(2) p1(2) by (simp only: st2)
         simp
  qed
  have explicit: "\<not> columns_given opts \<longrightarrow>
           map (map length) rows' = map (map length) (fst (rd c1))
         \<and> concat (concat rows') =
             map2 (XOR) (concat (concat (fst (rd c1))))
               (map (ks (md5 (password opts))) [0 ..< length (concat (concat (fst (rd c1))))])"
  proof
    assume "\<not> columns_given opts"
    from transform_lines_no_columns [OF this, of ks tcols ?e "fst (rd c1)"] tl
    have "concat (concat rows') = fst (process ks ?e (concat (concat (fst (rd c1)))))"
      and "map (map length) rows' = map (map length) (fst (rd c1))"
      by auto
    then show "map (map length) rows' = map (map length) (fst (rd c1))
         \<and> concat (concat rows') =
             map2 (XOR) (concat (concat (fst (rd c1))))
               (map (ks (md5 (password opts))) [0 ..< length (concat (concat (fst (rd c1))))])"
      by (simp add: process_def)
  qed
  show ?thesis
    by (rule exI [of _ rows'], rule exI [of _ e1])
       (intro conjI tl p1(1) p1(2) p2(1) p2(2) batch explicit)
qed

theorem fresh_handle_per_file_witness:
  "files (snd (process_target (\<lambda>k i. of_nat i + 1) (\<lambda>p. of_nat (length p))
      (\<lambda>b. ([map (\<lambda>x. [x]) b], False)) (\<lambda>rows. concat (concat rows))
      \<lparr>columns = None, password = [112, 119], not_really = False, verbose = False\<rparr> []
      \<lparr>files = [''/a'' \<mapsto> [3, 4], ''/b'' \<mapsto> [3, 4]], processed_files = 0, trace = []\<rparr> ''/a''))
     ''/a'' = Some [2, 6]
   \<and> files (snd (process_target (\<lambda>k i. of_nat i + 1) (\<lambda>p. of_nat (length p))
      (\<lambda>b. ([map (\<lambda>x. [x]) b], False)) (\<lambda>rows. concat (concat rows))
      \<lparr>columns = None, password = [112, 119], not_really = False, verbose = True\<rparr> []
      \<lparr>files = [''/a'' \<mapsto> [2, 6], ''/b'' \<mapsto> [3, 4]], processed_files = 1,
        trace = [Open_rb ''/a'', Open_wb ''/a'']\<rparr> ''/b''))
     ''/b'' = Some [2, 6]"
proof -
  have a: "files \<lparr>files = [''/a'' \<mapsto> [3, 4], ''/b'' \<mapsto> [3, 4]], processed_files = 0, trace = []\<rparr> ''/a''
      = Some [3, 4]" by simp
  have b: "files \<lparr>files = [''/a'' \<mapsto> [2, 6], ''/b'' \<mapsto> [3, 4]], processed_files = 1,
        trace = [Open_rb ''/a'', Open_wb ''/a'']\<rparr> ''/b'' = Some [3, 4]" by simp
  have c: "(\<lambda>b. ([map (\<lambda>x. [x]) b], False)) [3, 4::byte] = (\<lambda>b. ([map (\<lambda>x. [x]) b], False)) [3, 4]"
    by simp
  have d: "\<not> snd ((\<lambda>b. ([map (\<lambda>x. [x]) b], False)) [3, 4::byte])" by simp
  have e: "\<not> not_really \<lparr>columns = None, password = [112, 119], not_really = False, verbose = False\<rparr>"
    by simp
  have g: "password \<lparr>columns = None, password = [112, 119], not_really = False, verbose = True\<rparr>
      = password \<lparr>columns = None, password = [112, 119], not_really = False, verbose = False\<rparr>"
    by simp
  have h: "columns \<lparr>columns = None, password = [112, 119], not_really = False, verbose = True\<rparr>
      = columns \<lparr>columns = None, password = [112, 119], not_really = False, verbose = False\<rparr>"
    by simp
  have e2: "\<not> not_really \<lparr>columns = None, password = [112, 119], not_really = False, verbose = True\<rparr>"
    by simp
  have f: "\<forall>line\<in>set (fst ((\<lambda>b. ([map (\<lambda>x. [x]) b], False)) [3, 4::byte])). \<forall>c\<in>set ([]::nat list). c < length line"
    by simp
  from fresh_handle_per_file [where rd = "\<lambda>b. ([map (\<lambda>x. [x]) b], False)"
      and ks = "\<lambda>k i. of_nat i + 1" and ?md5.0 = "\<lambda>p. of_nat (length p)"
      and wr = "\<lambda>rows. concat (concat rows)" and tcols = "[]", OF a b c d g h e e2 f]
  show ?thesis
    apply (elim exE conjE)
    apply (simp add: transform_line_def columns_given_def crypto_def process_def)
    done
qed

text \<open>
  C8, as amended (a file is touched once for each entry of the crawl that names it). The
  paths a run opens for reading are the entries of the crawler's result, in order, up to
  the one at which the run ended, all of them when the run ends without an error; and
  every opening for writing follows an opening for reading of the same entry. Neither the
  crawler nor the main loop drops an entry that names a file already named. So, with
  \<open>file_of\<close> any way of telling which file a path names: if no two entries of the
  crawler's result name the same file, no file is opened for reading twice and no file is
  opened for writing twice; and a file named by two entries (a path given twice, a path
  given together with a directory above it, or two paths linked to one file) is touched
  once for each.
\<close>

theorem touched_once_per_crawl_entry:
  assumes "main_program ks md5 rd wr ex abspath isdir listdir cl st = Some (Inr (r, st1))"
    and "trace st = []"
  shows "\<exists>targets k. crawler isdir listdir (map abspath (arg_paths cl)) = Some targets
           \<and> k \<le> length targets
           \<and> opened_rb (trace st1) = take k targets
           \<and> (r = None \<longrightarrow> k = length targets)
           \<and> mset (opened_wb (trace st1)) \<subseteq># mset (take k targets)
           \<and> (distinct (map file_of targets) \<longrightarrow>
                distinct (map file_of (opened_rb (trace st1)))
                \<and> distinct (map file_of (opened_wb (trace st1))))"
proof -
  from main_program_run [OF assms(1)] obtain opts where
    run: "run ks md5 rd wr isdir listdir opts (map abspath (arg_paths cl)) st = Some (r, st1)"
    by blast
  from run_touched [OF run assms(2)] obtain targets where
    "\<exists>k. crawler isdir listdir (map abspath (arg_paths cl)) = Some targets
           \<and> k \<le> length targets
           \<and> opened_rb (trace st1) = take k targets
           \<and> (r = None \<longrightarrow> k = length targets)
           \<and> mset (opened_wb (trace st1)) \<subseteq># mset (take k targets)" ..
  then obtain k where t: "crawler isdir listdir (map abspath (arg_paths cl)) = Some targets
           \<and> k \<le> length targets
           \<and> opened_rb (trace st1) = take k targets
           \<and> (r = None \<longrightarrow> k = length targets)
           \<and> mset (opened_wb (trace st1)) \<subseteq># mset (take k targets)" ..
  note cr = t [THEN conjunct1]
    and k = t [THEN conjunct2, THEN conjunct1]
    and a = t [THEN conjunct2, THEN conjunct2, THEN conjunct1]
    and c = t [THEN conjunct2, THEN conjunct2, THEN conjunct2, THEN conjunct1]
    and d = t [THEN conjunct2, THEN conjunct2, THEN conjunct2, THEN conjunct2]
  have e: "distinct (map file_of targets) \<longrightarrow>
      distinct (map file_of (opened_rb (trace st1)))
      \<and> distinct (map file_of (opened_wb (trace st1)))"
  proof
    assume "distinct (map file_of targets)"
    then have "distinct (take k (map file_of targets))" by (rule distinct_take)
    then have dt: "distinct (map file_of (take k targets))" by (simp add: take_map)
    from d have "image_mset file_of (mset (opened_wb (trace st1)))
        \<subseteq># image_mset file_of (mset (take k targets))"
      by (rule image_mset_subseteq_mono)
    then have "mset (map file_of (opened_wb (trace st1))) \<subseteq># mset (map file_of (take k targets))"
      by simp
    from this dt have "distinct (map file_of (opened_wb (trace st1)))"
      by (rule distinct_mset_subset)
    with dt a show "distinct (map file_of (opened_rb (trace st1)))
        \<and> distinct (map file_of (opened_wb (trace st1)))"
      by simp
  qed
  show ?thesis
    by (rule exI [of _ targets], rule exI [of _ k]) (intro conjI cr k a c d e)
qed

theorem touched_once_per_crawl_entry_witness:
  "crawler (\<lambda>p. False) (\<lambda>p. []) (map (\<lambda>p. p) [''/a'', ''/b'']) = Some [''/a'', ''/b'']
   \<and> opened_rb [Open_rb ''/a'', Open_wb ''/a'', Open_rb ''/b'', Open_wb ''/b'',
        Print_altered 2] = [''/a'', ''/b'']
   \<and> distinct (map (\<lambda>p. p) (opened_rb [Open_rb ''/a'', Open_wb ''/a'', Open_rb ''/b'',
        Open_wb ''/b'', Print_altered 2]))
   \<and> distinct (map (\<lambda>p. p) (opened_wb [Open_rb ''/a'', Open_wb ''/a'', Open_rb ''/b'',
        Open_wb ''/b'', Print_altered 2]))"
proof -
  have run: "main_program (\<lambda>k i. of_nat i + 1) (\<lambda>p. of_nat (length p))
      (\<lambda>b. ([map (\<lambda>x. [x]) b], False)) (\<lambda>rows. concat (concat rows))
      (\<lambda>p. True) (\<lambda>p. p) (\<lambda>p. False) (\<lambda>p. [])
      \<lparr>arg_long_help = False, arg_columns = None, arg_password = Some [112, 119],
       arg_not_really = False, arg_verbose = False, arg_paths = [''/a'', ''/b''],
       typed_password = []\<rparr>
      \<lparr>files = [''/a'' \<mapsto> [1], ''/b'' \<mapsto> [3, 4]], processed_files = 0, trace = []\<rparr>
    = Some (Inr (None, \<lparr>files = [''/a'' \<mapsto> [1], ''/b'' \<mapsto> [3, 4], ''/a'' \<mapsto> [0], ''/b'' \<mapsto> [2, 6]],
         processed_files = 2,
         trace = [Open_rb ''/a'', Open_wb ''/a'', Open_rb ''/b'', Open_wb ''/b'',
                Print_altered 2]\<rparr>))"
    by (simp add: main_program_def read_options_def
      run_def crawler_Cons crawler_Nil target_columns_def
      process_target_def crypto_init_def transform_line_def columns_given_def emit_def
      crypto_def process_def)
  have tr: "trace \<lparr>files = [''/a'' \<mapsto> [1], ''/b'' \<mapsto> [3, 4]], processed_files = 0, trace = []\<rparr> = []"
    by simp
  from touched_once_per_crawl_entry [OF run tr, where file_of = "\<lambda>p. p"] show ?thesis
    by (elim exE conjE) (auto simp add: crawler_Cons crawler_Nil)
qed

text \<open>
  The claim as stated fails when a path is given twice: the file is read and rewritten
  twice in the run, which leaves it as it was before the run.
\<close>

theorem repeated_target_counterexample:
  "(case main_program (\<lambda>k i. of_nat i + 1) (\<lambda>p. of_nat (length p))
      (\<lambda>b. ([map (\<lambda>x. [x]) b], False)) (\<lambda>rows. concat (concat rows))
      (\<lambda>p. True) (\<lambda>p. p) (\<lambda>p. False) (\<lambda>p. [])
      \<lparr>arg_long_help = False, arg_columns = None, arg_password = Some [112, 119],
       arg_not_really = False, arg_verbose = False, arg_paths = [''/a'', ''/a''],
       typed_password = []\<rparr>
      \<lparr>files = [''/a'' \<mapsto> [1], ''/b'' \<mapsto> [3, 4]], processed_files = 0, trace = []\<rparr> of
      Some (Inr (r, st)) \<Rightarrow> r = None
        \<and> trace st = [Open_rb ''/a'', Open_wb ''/a'', Open_rb ''/a'', Open_wb ''/a'',
             Print_altered 2]
        \<and> opened_rb (trace st) = [''/a'', ''/a'']
        \<and> opened_wb (trace st) = [''/a'', ''/a'']
        \<and> files st ''/a'' = Some [1] \<and> processed_files st = 2
    | _ \<Rightarrow> False)"
  by (simp add: main_program_def read_options_def
      run_def crawler_Cons crawler_Nil target_columns_def
      process_target_def crypto_init_def transform_line_def columns_given_def emit_def
      crypto_def process_def)

section \<open>Properties of the column option\<close>

text \<open>
  C5 (frame property of the row transformation): not met by the program. Whatever is
  given with \<^verbatim>\<open>-c\<close>, the options of a run have no column list, so the main loop
  takes the branch without one: every field of every row is transformed, and the cipher
  object moves on by the lengths of all fields. The fields that were not selected are
  not left as they were.
\<close>

theorem column_option_not_stored:
  assumes "read_options ex cl = Inr opts"
  shows "columns opts = None \<and> target_columns opts = []
       \<and> transform_line ks opts (target_columns opts) e line = Inr (map_crypto ks e line)
       \<and> (\<forall>i<length line. fst (map_crypto ks e line) ! i =
             fst (crypto ks (e\<lparr>aes_pos := aes_pos e + sum_list (map length (take i line))\<rparr>)
               (line ! i)))
       \<and> snd (map_crypto ks e line) = e\<lparr>aes_pos := aes_pos e + sum_list (map length line)\<rparr>"
  using read_options_columns [OF assms]
  by (simp add: transform_line_def map_crypto_nth map_crypto_pos)

theorem column_option_not_stored_witness:
  "read_options (\<lambda>p. True)
     \<lparr>arg_long_help = False, arg_columns = Some ''1'', arg_password = Some [112, 119],
      arg_not_really = False, arg_verbose = False, arg_paths = [''/a''],
      typed_password = []\<rparr>
   = Inr \<lparr>columns = None, password = [112, 119], not_really = False, verbose = False\<rparr>
   \<and> transform_line (\<lambda>k i. of_nat i + 1)
       \<lparr>columns = None, password = [112, 119], not_really = False, verbose = False\<rparr>
       (target_columns
          \<lparr>columns = None, password = [112, 119], not_really = False, verbose = False\<rparr>)
       \<lparr>aes_key = 2, aes_pos = 0\<rparr> [[49], [115, 101], [7]]
     = Inr ([[48], [113, 102], [3]], \<lparr>aes_key = 2, aes_pos = 4\<rparr>)"
proof -
  have ro: "read_options (\<lambda>p. True)
     \<lparr>arg_long_help = False, arg_columns = Some ''1'', arg_password = Some [112, 119],
      arg_not_really = False, arg_verbose = False, arg_paths = [''/a''],
      typed_password = []\<rparr>
   = Inr \<lparr>columns = None, password = [112, 119], not_really = False, verbose = False\<rparr>"
    by (simp add: read_options_def check_columns_def isdigit_def)
  from column_option_not_stored [OF ro, of "\<lambda>k i. of_nat i + 1" "\<lparr>aes_key = 2, aes_pos = 0\<rparr>"
      "[[49], [115, 101], [7]]"]
  have "transform_line (\<lambda>k i. of_nat i + 1)
       \<lparr>columns = None, password = [112, 119], not_really = False, verbose = False\<rparr>
       (target_columns
          \<lparr>columns = None, password = [112, 119], not_really = False, verbose = False\<rparr>)
       \<lparr>aes_key = 2, aes_pos = 0\<rparr> [[49], [115, 101], [7]]
     = Inr (map_crypto (\<lambda>k i. of_nat i + 1) \<lparr>aes_key = 2, aes_pos = 0\<rparr> [[49], [115, 101], [7]])"
    by (elim conjE)
  with ro show ?thesis by (simp add: crypto_def process_def)
qed



end
